theory Spec2Isabelle
  imports Main "HOL-Library.Sublist"
begin

section \<open>Strings and CSV text (popup.js, CSV generation)\<close>

text \<open>
  A JavaScript string is modelled as a \<^typ>\<open>string\<close>; a character stands for one
  code unit below 256. The double quote is \<open>CHR 0x22\<close>, the line feed \<open>CHR 0x0A\<close>.
\<close>

text \<open>\<^verbatim>\<open>Array.prototype.join(sep)\<close>.\<close>

fun join :: "string \<Rightarrow> string list \<Rightarrow> string" where
  "join sep [] = []"
| "join sep [x] = x"
| "join sep (x # y # ys) = x @ sep @ join sep (y # ys)"

text \<open>\<^verbatim>\<open>safe.replace(/"/g, '""')\<close>: every double quote is written twice.\<close>

fun replace_quotes :: "string \<Rightarrow> string" where
  "replace_quotes [] = []"
| "replace_quotes (c # cs) =
     (if c = CHR 0x22 then CHR 0x22 # CHR 0x22 # replace_quotes cs
      else c # replace_quotes cs)"

text \<open>
  \<^verbatim>\<open>quoteCSV(str)\<close>. The argument is a string or missing (\<open>undefined\<close>, \<open>null\<close>:
  \<open>None\<close>); \<^verbatim>\<open>str || ""\<close> replaces a missing or empty argument by the empty string.
\<close>

definition quoteCSV :: "string option \<Rightarrow> string" where
  "quoteCSV str =
     (let safe = (case str of None \<Rightarrow> [] | Some s \<Rightarrow> (if s = [] then [] else s))
      in CHR 0x22 # replace_quotes safe @ [CHR 0x22])"

text \<open>One record of an extraction result, as contentScript.js builds it.\<close>

record extraction_record =
  pageUrl :: "string option"
  pageName :: "string option"
  content :: "string option"
  postDate :: "string option"
  likes :: "string option"
  comments :: "string option"

definition headers :: "string list" where
  "headers = [''PageURL'', ''PageName'', ''Content'', ''PostDate'', ''Likes'', ''Comments'']"

text \<open>The row that the \<^verbatim>\<open>forEach\<close> body of \<^verbatim>\<open>generateCSV\<close> pushes for one item.\<close>

definition csv_row :: "extraction_record \<Rightarrow> string" where
  "csv_row item =
     join '','' [quoteCSV (pageUrl item), quoteCSV (pageName item), quoteCSV (content item),
                quoteCSV (postDate item), quoteCSV (likes item), quoteCSV (comments item)]"

definition generateCSV :: "extraction_record list \<Rightarrow> string" where
  "generateCSV dataArray = join [CHR 0x0A] (join '','' headers # map csv_row dataArray)"

text \<open>The text that \<^verbatim>\<open>downloadOneRowCSV(url, pageName, content)\<close> hands to \<^verbatim>\<open>downloadCSV\<close>.\<close>

definition oneRowCSV :: "string \<Rightarrow> string \<Rightarrow> string \<Rightarrow> string" where
  "oneRowCSV url pgName cont =
     (let row = [quoteCSV (Some url), quoteCSV (Some pgName), quoteCSV (Some cont), [], [], []];
          csvRows = [join '','' headers, join '','' row]
      in join [CHR 0x0A] csvRows)"

text \<open>\<^verbatim>\<open>String.prototype.split(sep)\<close> for a one-character separator.\<close>

fun split_on :: "char \<Rightarrow> string \<Rightarrow> string list" where
  "split_on sep [] = [[]]"
| "split_on sep (c # cs) =
     (if c = sep then [] # split_on sep cs
      else (case split_on sep cs of
              [] \<Rightarrow> [[c]]
            | p # ps \<Rightarrow> (c # p) # ps))"

text \<open>
  \<^verbatim>\<open>getFilenameForUrl(url)\<close>: the last non-empty path segment, or \<open>linkedin_page\<close> when
  there is none, followed by \<open>.csv\<close>.
\<close>

definition getFilenameForUrl :: "string \<Rightarrow> string" where
  "getFilenameForUrl url =
     (let parts = filter (\<lambda>p. p \<noteq> []) (split_on CHR ''/'' url);
          lst = (if parts = [] then ''linkedin_page''
                 else if last parts = [] then ''linkedin_page'' else last parts)
      in lst @ ''.csv'')"

text \<open>
  The reader of one quoted cell that the round-trip property names: it strips the outer
  quotes and collapses each doubled quote; a cell that is not quoted, or that holds a
  single quote inside, is rejected.
\<close>

fun collapse_quotes :: "string \<Rightarrow> string option" where
  "collapse_quotes [] = Some []"
| "collapse_quotes [c] = (if c = CHR 0x22 then None else Some [c])"
| "collapse_quotes (c # d # cs) =
     (if c = CHR 0x22 then
        (if d = CHR 0x22 then map_option ((#) CHR 0x22) (collapse_quotes cs) else None)
      else map_option ((#) c) (collapse_quotes (d # cs)))"

definition parse_quoted_cell :: "string \<Rightarrow> string option" where
  "parse_quoted_cell cell =
     (if 2 \<le> length cell \<and> hd cell = CHR 0x22 \<and> last cell = CHR 0x22
      then collapse_quotes (butlast (tl cell)) else None)"

section \<open>The source list (popup.js, fetchChunkFile)\<close>

datatype json =
    JNull
  | JBool bool
  | JNum int
  | JStr string
  | JArray "json list"
  | JObject "(string \<times> json) list"

datatype js_error =
    Error string
  | TypeError
  | SyntaxError
  | Rejection string

text \<open>What \<^verbatim>\<open>fetch(chunkUrl)\<close> and \<^verbatim>\<open>resp.json()\<close> give.\<close>

datatype fetch_result =
    FetchFailed
  | FetchResponse bool "json option"

text \<open>
  The white space and line terminators that \<^verbatim>\<open>String.prototype.trim\<close> removes, among
  the code units below 256: TAB, LF, VT, FF, CR, SP and NBSP.
\<close>

definition is_js_space :: "char \<Rightarrow> bool" where
  "is_js_space c = (c \<in> set [CHR 0x09, CHR 0x0A, CHR 0x0B, CHR 0x0C, CHR 0x0D, CHR 0x20, CHR 0xA0])"

definition trim :: "string \<Rightarrow> string" where
  "trim s = rev (dropWhile is_js_space (rev (dropWhile is_js_space s)))"

text \<open>
  The filter callback \<^verbatim>\<open>(u) => u && u.trim()\<close>, as a truth value: a falsy entry is
  dropped before \<open>trim\<close> is looked up; a truthy entry that is not a string has no
  \<open>trim\<close> method, and the call throws a TypeError.
\<close>

fun keep_entry :: "json \<Rightarrow> js_error + bool" where
  "keep_entry JNull = Inr False"
| "keep_entry (JBool b) = (if b then Inl TypeError else Inr False)"
| "keep_entry (JNum n) = (if n = 0 then Inr False else Inl TypeError)"
| "keep_entry (JStr s) = (if s = [] then Inr False else Inr (trim s \<noteq> []))"
| "keep_entry (JArray xs) = Inl TypeError"
| "keep_entry (JObject kvs) = Inl TypeError"

text \<open>\<^verbatim>\<open>arr.filter((u) => u && u.trim())\<close>; the entries kept are strings.\<close>

fun filter_entries :: "json list \<Rightarrow> js_error + string list" where
  "filter_entries [] = Inr []"
| "filter_entries (u # us) =
     (case keep_entry u of
        Inl e \<Rightarrow> Inl e
      | Inr b \<Rightarrow>
          (case filter_entries us of
             Inl e \<Rightarrow> Inl e
           | Inr r \<Rightarrow>
               (case u of
                  JStr s \<Rightarrow> Inr (if b then s # r else r)
                | _ \<Rightarrow> Inr r)))"

definition fetchChunkFile :: "fetch_result \<Rightarrow> js_error + string list" where
  "fetchChunkFile f =
     (case f of
        FetchFailed \<Rightarrow> Inl TypeError
      | FetchResponse ok body \<Rightarrow>
          if \<not> ok then Inl (Error ''Failed to fetch chunk.txt'')
          else (case body of
                  None \<Rightarrow> Inl SyntaxError
                | Some (JArray arr) \<Rightarrow> filter_entries arr
                | Some _ \<Rightarrow> Inl TypeError))"

text \<open>An entry is blank when it is empty or holds nothing but white space.\<close>

definition blank :: "string \<Rightarrow> bool" where
  "blank s = list_all is_js_space s"

text \<open>The entries of the source list that are strings and not blank.\<close>

definition non_blank_entry :: "json \<Rightarrow> bool" where
  "non_blank_entry e = (case e of JStr s \<Rightarrow> \<not> blank s | _ \<Rightarrow> False)"

section \<open>The popup's state (popup.js)\<close>

text \<open>
  A file handed to the browser for download: a CSV artifact with its file name and text,
  or \<open>chunk-updated.txt\<close>, whose text is the JSON of the list it holds.
\<close>

datatype download =
    CsvFile string string
  | ChunkFile "string list"

text \<open>
  The two functions given to \<^verbatim>\<open>setTimeout\<close> for the heartbeat timer:
  \<open>OnTimeout url\<close> is the one of \<^verbatim>\<open>startHeartbeatTimer\<close>, which calls the stall handler
  that \<^verbatim>\<open>handleScrapeClick\<close> built for \<open>url\<close>; \<open>WarnExpired\<close> is the one of
  \<^verbatim>\<open>resetHeartbeatTimer\<close>, which writes a warning and nothing else.
\<close>

datatype timer_callback =
    OnTimeout string
  | WarnExpired

datatype log_entry =
    WarnNoHeartbeat string
  | WarnSkipping string
  | WarnTimerExpired
  | WarnCsvTimeout string
  | ErrorScraping string js_error
  | ErrorFatal js_error

datatype status_text =
    StatusBlank
  | StatusFetching
  | StatusLoaded nat
  | StatusResuming nat
  | StatusAllProcessed
  | StatusNavigating string
  | StatusScraping string
  | StatusNoPosts string
  | StatusUnclaimed string
  | StatusChecking string
  | StatusDone string
  | StatusErrorSkipping string
  | StatusFatal js_error

text \<open>
  \<open>chunk_urls\<close> is the key of \<^verbatim>\<open>chrome.storage.local\<close> (\<open>None\<close>: absent or not an
  array). \<open>timers\<close> are the pending timeouts of the event loop, each with its handle,
  the time at which it is due and its callback; handles are positive.
\<close>

record popup_state =
  chunk_urls :: "string list option"
  downloads :: "download list"
  console :: "log_entry list"
  statusText :: status_text
  heartbeatTimer :: "nat option"
  heartbeatTimeoutMs :: nat
  clock :: nat
  timers :: "(nat \<times> nat \<times> timer_callback) list"
  last_timer_id :: nat

definition initial_state :: popup_state where
  "initial_state =
     \<lparr>chunk_urls = None, downloads = [], console = [], statusText = StatusBlank,
      heartbeatTimer = None, heartbeatTimeoutMs = 30000, clock = 0, timers = [],
      last_timer_id = 0\<rparr>"

subsection \<open>Chrome storage logic\<close>

definition loadChunkFromStorage :: "popup_state \<Rightarrow> string list" where
  "loadChunkFromStorage s = (case chunk_urls s of Some urls \<Rightarrow> urls | None \<Rightarrow> [])"

definition saveChunkToStorage :: "string list \<Rightarrow> popup_state \<Rightarrow> popup_state" where
  "saveChunkToStorage urls s = s\<lparr>chunk_urls := Some urls\<rparr>"

definition removeUrlFromStorage :: "string \<Rightarrow> popup_state \<Rightarrow> popup_state" where
  "removeUrlFromStorage url s =
     (let existing = loadChunkFromStorage s;
          filtered = filter (\<lambda>item. item \<noteq> url) existing
      in saveChunkToStorage filtered s)"

subsection \<open>Downloads and the console\<close>

definition downloadCSV :: "string \<Rightarrow> string \<Rightarrow> popup_state \<Rightarrow> popup_state" where
  "downloadCSV csvString filename s = s\<lparr>downloads := downloads s @ [CsvFile filename csvString]\<rparr>"

definition downloadOneRowCSV :: "string \<Rightarrow> string \<Rightarrow> string \<Rightarrow> popup_state \<Rightarrow> popup_state" where
  "downloadOneRowCSV url pgName cont s =
     downloadCSV (oneRowCSV url pgName cont) (getFilenameForUrl url) s"

definition downloadUpdatedChunkFile :: "popup_state \<Rightarrow> popup_state" where
  "downloadUpdatedChunkFile s =
     (let updatedList = loadChunkFromStorage s
      in s\<lparr>downloads := downloads s @ [ChunkFile updatedList]\<rparr>)"

definition console_log :: "log_entry \<Rightarrow> popup_state \<Rightarrow> popup_state" where
  "console_log e s = s\<lparr>console := console s @ [e]\<rparr>"

definition set_status :: "status_text \<Rightarrow> popup_state \<Rightarrow> popup_state" where
  "set_status t s = s\<lparr>statusText := t\<rparr>"

definition skipUrl :: "string \<Rightarrow> popup_state \<Rightarrow> popup_state" where
  "skipUrl url s =
     (let s1 = console_log (WarnSkipping url) s;
          s2 = downloadOneRowCSV url ''skipped'' ''no post or error'' s1;
          s3 = removeUrlFromStorage url s2
      in downloadUpdatedChunkFile s3)"

subsection \<open>Timeouts and the heartbeat timer\<close>

definition setTimeout :: "timer_callback \<Rightarrow> nat \<Rightarrow> popup_state \<Rightarrow> nat \<times> popup_state" where
  "setTimeout cb ms s =
     (let h = Suc (last_timer_id s)
      in (h, s\<lparr>timers := timers s @ [(h, clock s + ms, cb)], last_timer_id := h\<rparr>))"

definition clearTimeout :: "nat \<Rightarrow> popup_state \<Rightarrow> popup_state" where
  "clearTimeout h s = s\<lparr>timers := filter (\<lambda>(i, due, cb). i \<noteq> h) (timers s)\<rparr>"

definition clearHeartbeatTimer :: "popup_state \<Rightarrow> popup_state" where
  "clearHeartbeatTimer s =
     (case heartbeatTimer s of
        None \<Rightarrow> s
      | Some h \<Rightarrow> (clearTimeout h s)\<lparr>heartbeatTimer := None\<rparr>)"

definition startHeartbeatTimer :: "string \<Rightarrow> popup_state \<Rightarrow> popup_state" where
  "startHeartbeatTimer url s =
     (let s1 = clearHeartbeatTimer s;
          (h, s2) = setTimeout (OnTimeout url) (heartbeatTimeoutMs s1) s1
      in s2\<lparr>heartbeatTimer := Some h\<rparr>)"

definition resetHeartbeatTimer :: "popup_state \<Rightarrow> popup_state" where
  "resetHeartbeatTimer s =
     (case heartbeatTimer s of
        None \<Rightarrow> s
      | Some h \<Rightarrow>
          (let s1 = clearTimeout h s;
               (h', s2) = setTimeout WarnExpired (heartbeatTimeoutMs s1) s1
           in s2\<lparr>heartbeatTimer := Some h'\<rparr>))"

text \<open>
  Running a callback that is due. The stall handler of \<^verbatim>\<open>handleScrapeClick\<close> warns and
  calls \<^verbatim>\<open>skipUrl(url)\<close>. The waits inside \<^verbatim>\<open>skipUrl\<close> are for storage callbacks
  only; the model lets them finish before the next event, so \<open>skipUrl\<close> is one step.
\<close>

definition run_callback :: "timer_callback \<Rightarrow> popup_state \<Rightarrow> popup_state" where
  "run_callback cb s =
     (case cb of
        OnTimeout url \<Rightarrow> skipUrl url (console_log (WarnNoHeartbeat url) s)
      | WarnExpired \<Rightarrow> console_log WarnTimerExpired s)"

text \<open>
  Time passes: the timeouts that have become due are taken off the pending list and their
  callbacks run, in the order in which they were set.
\<close>

definition advance :: "nat \<Rightarrow> popup_state \<Rightarrow> popup_state" where
  "advance ms s =
     (let t = clock s + ms;
          due = filter (\<lambda>(h, d, cb). d \<le> t) (timers s);
          s1 = s\<lparr>timers := filter (\<lambda>(h, d, cb). \<not> d \<le> t) (timers s)\<rparr>;
          s2 = fold (\<lambda>(h, d, cb). run_callback cb) due s1
      in s2\<lparr>clock := t\<rparr>)"

definition sleep :: "nat \<Rightarrow> popup_state \<Rightarrow> popup_state" where
  "sleep ms s = advance ms s"

text \<open>
  What happens while \<^verbatim>\<open>handleScrapeClick\<close> waits for \<^verbatim>\<open>scrapeTab\<close>: time passes, or a
  message with the given action reaches the \<^verbatim>\<open>onMessage\<close> listener.
\<close>

datatype page_event =
    Elapse nat
  | Message string

definition onMessage :: "string \<Rightarrow> popup_state \<Rightarrow> popup_state" where
  "onMessage action s = (if action = ''heartbeat'' then resetHeartbeatTimer s else s)"

fun deliver :: "page_event \<Rightarrow> popup_state \<Rightarrow> popup_state" where
  "deliver (Elapse ms) s = advance ms s"
| "deliver (Message action) s = onMessage action s"

definition run_events :: "page_event list \<Rightarrow> popup_state \<Rightarrow> popup_state" where
  "run_events evs s = fold deliver evs s"

section \<open>The orchestrator (popup.js, handleScrapeClick)\<close>

text \<open>
  What the callback of \<^verbatim>\<open>chrome.tabs.sendMessage\<close> is called with: an error in
  \<^verbatim>\<open>chrome.runtime.lastError\<close>, no response, or a response with its \<open>data\<close>
  (\<open>None\<close>: the property is missing).
\<close>

datatype tab_reply =
    LastError string
  | NoReply
  | Reply "extraction_record list option"

definition scrapeTab :: "tab_reply \<Rightarrow> js_error + extraction_record list" where
  "scrapeTab r =
     (case r of
        LastError msg \<Rightarrow> Inl (Rejection msg)
      | NoReply \<Rightarrow> Inl (Rejection ''No response from content script'')
      | Reply d \<Rightarrow> Inr (case d of None \<Rightarrow> [] | Some rows \<Rightarrow> rows))"

text \<open>
  How the browser and the page behave while one URL is processed: the id of the active tab
  (\<open>None\<close>: there is none), whether the tab ever reports the load as complete, what
  happens while the popup waits for the page's answer, the answer (\<open>None\<close>: the callback
  is never called), and what \<^verbatim>\<open>isFileDownloaded\<close> says at each attempt.
\<close>

record scenario =
  active_tab :: "nat option"
  navigation_completes :: bool
  page_events :: "page_event list"
  reply :: "tab_reply option"
  file_found :: "nat \<Rightarrow> bool"

text \<open>The loop of \<^verbatim>\<open>waitForFileDownload\<close>, from the given number of attempts.\<close>

function wait_attempts :: "(nat \<Rightarrow> bool) \<Rightarrow> nat \<Rightarrow> popup_state \<Rightarrow> bool \<times> popup_state" where
  "wait_attempts found attempts s =
     (if attempts < 10 then
        (let s1 = sleep 3000 s
         in if found attempts then (True, s1) else wait_attempts found (Suc attempts) s1)
      else (False, s))"
  by pat_completeness auto
termination
  by (relation "measure (\<lambda>(found, attempts, s). 10 - attempts)") auto

declare wait_attempts.simps [simp del]

definition waitForFileDownload :: "(nat \<Rightarrow> bool) \<Rightarrow> popup_state \<Rightarrow> bool \<times> popup_state" where
  "waitForFileDownload found s = wait_attempts found 0 s"

text \<open>The three branches that \<^verbatim>\<open>handleScrapeClick\<close> takes on the scraped data.\<close>

datatype data_class =
    NoPosts
  | NoPostRecord
  | Posts

definition classify :: "extraction_record list \<Rightarrow> data_class" where
  "classify scrapedData =
     (if scrapedData = [] then NoPosts
      else if length scrapedData = 1
              \<and> pageName (scrapedData ! 0) = Some ''not found''
              \<and> content (scrapedData ! 0) = Some ''no post''
      then NoPostRecord
      else Posts)"

text \<open>The body of the \<^verbatim>\<open>try\<close> block from the point where \<^verbatim>\<open>scrapeTab\<close> has resolved.\<close>

definition handle_scraped ::
  "scenario \<Rightarrow> string \<Rightarrow> extraction_record list \<Rightarrow> popup_state \<Rightarrow> popup_state" where
  "handle_scraped sc url scrapedData s =
     (let s1 = clearHeartbeatTimer s
      in case classify scrapedData of
           NoPosts \<Rightarrow>
             (let s2 = set_status (StatusNoPosts url) s1;
                  s3 = downloadOneRowCSV url ''not found'' ''no post'' s2;
                  s4 = removeUrlFromStorage url s3
              in downloadUpdatedChunkFile s4)
         | NoPostRecord \<Rightarrow>
             (let s2 = set_status (StatusUnclaimed url) s1;
                  csvContent = generateCSV scrapedData;
                  s3 = downloadCSV csvContent (getFilenameForUrl url) s2;
                  s4 = removeUrlFromStorage url s3
              in downloadUpdatedChunkFile s4)
         | Posts \<Rightarrow>
             (let csvContent = generateCSV scrapedData;
                  s2 = downloadCSV csvContent (getFilenameForUrl url) s1;
                  s3 = sleep 3000 s2;
                  s4 = set_status (StatusChecking url) s3;
                  (downloaded, s5) = waitForFileDownload (file_found sc) s4;
                  s6 = (if \<not> downloaded then console_log (WarnCsvTimeout url) s5 else s5);
                  s7 = removeUrlFromStorage url s6;
                  s8 = downloadUpdatedChunkFile s7;
                  s9 = set_status (StatusDone url) s8
              in sleep 2000 s9))"

text \<open>The \<^verbatim>\<open>catch\<close> block of one iteration.\<close>

definition catch_skip :: "js_error \<Rightarrow> string \<Rightarrow> popup_state \<Rightarrow> popup_state" where
  "catch_skip err url s =
     (let s1 = console_log (ErrorScraping url err) s;
          s2 = set_status (StatusErrorSkipping url) s1;
          s3 = clearHeartbeatTimer s2
      in skipUrl url s3)"

text \<open>
  One iteration of the loop for the first URL of the queue. It ends and the loop goes on
  (\<open>Continue\<close>), or it waits for ever on a promise that never settles (\<open>Blocked\<close>, with
  the state in which the popup then stays): \<^verbatim>\<open>navigateAndWait\<close> and \<^verbatim>\<open>scrapeTab\<close> have
  no timeout of their own. Heartbeats and the passing of time are followed while the popup
  waits for \<^verbatim>\<open>scrapeTab\<close>, the one wait during which a heartbeat timer is pending; an
  iteration leaves no timer behind (lemma \<open>process_url_idle\<close> below).
\<close>

datatype step_result =
    Continue popup_state
  | Blocked popup_state

definition process_url :: "scenario \<Rightarrow> string \<Rightarrow> popup_state \<Rightarrow> step_result" where
  "process_url sc url s =
     (let s0 = set_status (StatusNavigating url) s
      in case active_tab sc of
           None \<Rightarrow> Continue (catch_skip (Error ''No active tab found.'') url s0)
         | Some tabId \<Rightarrow>
             if tabId = 0 then Continue (catch_skip (Error ''No active tab found.'') url s0)
             else if \<not> navigation_completes sc then Blocked s0
             else
               (let s1 = sleep 2000 s0;
                    s2 = startHeartbeatTimer url s1;
                    s3 = set_status (StatusScraping url) s2;
                    s4 = run_events (page_events sc) s3
                in case reply sc of
                     None \<Rightarrow> Blocked s4
                   | Some r \<Rightarrow>
                       (case scrapeTab r of
                          Inl err \<Rightarrow> Continue (catch_skip err url s4)
                        | Inr scrapedData \<Rightarrow> Continue (handle_scraped sc url scrapedData s4))))"

section \<open>The queue only shrinks\<close>

text \<open>
  \<open>shrunk ys xs\<close>: the list \<open>ys\<close> is \<open>xs\<close> with some entries filtered out. Every
  operation of the popup leaves the persisted queue so related to what it was, which is
  what makes the main loop terminate.
\<close>

definition shrunk :: "string list \<Rightarrow> string list \<Rightarrow> bool" where
  "shrunk ys xs = (\<exists>P. ys = filter P xs)"

lemma shrunk_refl: "shrunk xs xs"
  unfolding shrunk_def by (rule exI [of _ "\<lambda>_. True"]) simp

lemma shrunk_trans: "shrunk zs ys \<Longrightarrow> shrunk ys xs \<Longrightarrow> shrunk zs xs"
  unfolding shrunk_def by (metis filter_filter)

lemma shrunk_filter: "shrunk ys xs \<Longrightarrow> shrunk (filter Q ys) xs"
  unfolding shrunk_def by (metis filter_filter)

lemma load_simps:
  "loadChunkFromStorage (downloadCSV c f s) = loadChunkFromStorage s"
  "loadChunkFromStorage (downloadOneRowCSV u p c s) = loadChunkFromStorage s"
  "loadChunkFromStorage (downloadUpdatedChunkFile s) = loadChunkFromStorage s"
  "loadChunkFromStorage (console_log e s) = loadChunkFromStorage s"
  "loadChunkFromStorage (set_status t s) = loadChunkFromStorage s"
  "loadChunkFromStorage (clearHeartbeatTimer s) = loadChunkFromStorage s"
  "loadChunkFromStorage (startHeartbeatTimer u s) = loadChunkFromStorage s"
  "loadChunkFromStorage (resetHeartbeatTimer s) = loadChunkFromStorage s"
  "loadChunkFromStorage (removeUrlFromStorage u s) = filter (\<lambda>item. item \<noteq> u) (loadChunkFromStorage s)"
  by (simp_all add: loadChunkFromStorage_def downloadCSV_def downloadOneRowCSV_def
      downloadUpdatedChunkFile_def console_log_def set_status_def clearHeartbeatTimer_def
      startHeartbeatTimer_def resetHeartbeatTimer_def removeUrlFromStorage_def
      saveChunkToStorage_def clearTimeout_def setTimeout_def Let_def split: option.splits)

lemma load_skipUrl:
  "loadChunkFromStorage (skipUrl u s) = filter (\<lambda>item. item \<noteq> u) (loadChunkFromStorage s)"
  by (simp add: skipUrl_def Let_def load_simps)

lemma shrunk_run_callback: "shrunk (loadChunkFromStorage (run_callback cb s)) (loadChunkFromStorage s)"
  by (cases cb) (simp_all add: run_callback_def load_skipUrl load_simps shrunk_refl shrunk_filter)

lemma shrunk_fold_callbacks:
  "shrunk (loadChunkFromStorage (fold (\<lambda>(h, d, cb). run_callback cb) due s)) (loadChunkFromStorage s)"
proof (induction due arbitrary: s)
  case Nil
  show ?case by (simp add: shrunk_refl)
next
  case (Cons t due)
  obtain h d cb where t: "t = (h, d, cb)" by (cases t)
  show ?case
    using Cons.IH [of "run_callback cb s"] shrunk_run_callback [of cb s]
    by (simp add: t) (rule shrunk_trans)
qed

lemma shrunk_advance: "shrunk (loadChunkFromStorage (advance ms s)) (loadChunkFromStorage s)"
proof -
  let ?s1 = "s\<lparr>timers := filter (\<lambda>(h, d, cb). \<not> d \<le> clock s + ms) (timers s)\<rparr>"
  have "loadChunkFromStorage ?s1 = loadChunkFromStorage s"
    by (simp add: loadChunkFromStorage_def)
  then show ?thesis
    using shrunk_fold_callbacks [of "filter (\<lambda>(h, d, cb). d \<le> clock s + ms) (timers s)" ?s1]
    by (simp add: advance_def Let_def loadChunkFromStorage_def)
qed

lemma shrunk_deliver: "shrunk (loadChunkFromStorage (deliver ev s)) (loadChunkFromStorage s)"
  by (cases ev) (simp_all add: shrunk_advance onMessage_def load_simps shrunk_refl)

lemma shrunk_run_events: "shrunk (loadChunkFromStorage (run_events evs s)) (loadChunkFromStorage s)"
  unfolding run_events_def
proof (induction evs arbitrary: s)
  case Nil
  show ?case by (simp add: shrunk_refl)
next
  case (Cons ev evs)
  show ?case
    using Cons.IH [of "deliver ev s"] shrunk_deliver [of ev s]
    by simp (rule shrunk_trans)
qed

lemma shrunk_wait_attempts:
  "shrunk (loadChunkFromStorage (snd (wait_attempts found n s))) (loadChunkFromStorage s)"
proof (induction found n s rule: wait_attempts.induct)
  case (1 found attempts s)
  show ?case
  proof (cases "attempts < 10")
    case False
    then show ?thesis by (subst wait_attempts.simps) (simp add: shrunk_refl)
  next
    case True
    show ?thesis
    proof (cases "found attempts")
      case True
      with \<open>attempts < 10\<close> show ?thesis
        by (subst wait_attempts.simps) (simp add: sleep_def shrunk_advance)
    next
      case False
      have "shrunk (loadChunkFromStorage (snd (wait_attempts found (Suc attempts) (sleep 3000 s))))
              (loadChunkFromStorage (sleep 3000 s))"
        using "1.IH" [OF \<open>attempts < 10\<close> refl False] .
      then have "shrunk (loadChunkFromStorage (snd (wait_attempts found (Suc attempts) (sleep 3000 s))))
              (loadChunkFromStorage s)"
        by (rule shrunk_trans) (simp add: sleep_def shrunk_advance)
      with False \<open>attempts < 10\<close> show ?thesis
        by (subst wait_attempts.simps) simp
    qed
  qed
qed

lemma shrunk_set: "shrunk ys xs \<Longrightarrow> set ys \<subseteq> set xs"
  unfolding shrunk_def by auto

lemma shrunk_length_less:
  assumes "shrunk ys xs" and "u \<notin> set ys" and "u \<in> set xs"
  shows "length ys < length xs"
proof -
  from assms(1) obtain P where ys: "ys = filter P xs" unfolding shrunk_def ..
  with assms(2,3) have "\<not> P u" by auto
  with assms(3) show ?thesis unfolding ys by (rule length_filter_less)
qed

lemma shrunk_sleep: "shrunk (loadChunkFromStorage (sleep ms s)) (loadChunkFromStorage s)"
  by (simp add: sleep_def shrunk_advance)

lemma shrunk_skipUrl: "shrunk (loadChunkFromStorage (skipUrl u s)) (loadChunkFromStorage s)"
  by (simp add: load_skipUrl shrunk_filter shrunk_refl)

lemma absent_skipUrl: "u \<notin> set (loadChunkFromStorage (skipUrl u s))"
  by (simp add: load_skipUrl)

lemma shrunk_catch_skip: "shrunk (loadChunkFromStorage (catch_skip err u s)) (loadChunkFromStorage s)"
  using shrunk_skipUrl [of u "clearHeartbeatTimer (set_status (StatusErrorSkipping u) (console_log (ErrorScraping u err) s))"]
  by (simp add: catch_skip_def Let_def load_simps)

lemma absent_catch_skip: "u \<notin> set (loadChunkFromStorage (catch_skip err u s))"
  by (simp add: catch_skip_def Let_def absent_skipUrl)

lemma shrunk_waitForFileDownload:
  "shrunk (loadChunkFromStorage (snd (waitForFileDownload found s))) (loadChunkFromStorage s)"
  by (simp add: waitForFileDownload_def shrunk_wait_attempts)

lemma shrunk_handle_scraped:
  "shrunk (loadChunkFromStorage (handle_scraped sc u d s)) (loadChunkFromStorage s)"
proof (cases "classify d")
  case NoPosts
  then show ?thesis
    by (simp add: handle_scraped_def Let_def load_simps shrunk_filter shrunk_refl)
next
  case NoPostRecord
  then show ?thesis
    by (simp add: handle_scraped_def Let_def load_simps shrunk_filter shrunk_refl)
next
  case Posts
  let ?s4 = "set_status (StatusChecking u)
               (sleep 3000 (downloadCSV (generateCSV d) (getFilenameForUrl u) (clearHeartbeatTimer s)))"
  let ?w = "waitForFileDownload (file_found sc) ?s4"
  have a: "shrunk (loadChunkFromStorage ?s4) (loadChunkFromStorage s)"
    using shrunk_sleep [of 3000 "downloadCSV (generateCSV d) (getFilenameForUrl u) (clearHeartbeatTimer s)"]
    by (simp add: load_simps)
  have b: "shrunk (loadChunkFromStorage (snd ?w)) (loadChunkFromStorage s)"
    using shrunk_waitForFileDownload a by (rule shrunk_trans)
  let ?s9 = "set_status (StatusDone u) (downloadUpdatedChunkFile (removeUrlFromStorage u
               (if \<not> fst ?w then console_log (WarnCsvTimeout u) (snd ?w) else snd ?w)))"
  have c: "shrunk (loadChunkFromStorage ?s9) (loadChunkFromStorage s)"
    using b by (simp add: load_simps shrunk_filter)
  have "shrunk (loadChunkFromStorage (sleep 2000 ?s9)) (loadChunkFromStorage s)"
    using shrunk_sleep c by (rule shrunk_trans)
  with Posts show ?thesis
    by (simp add: handle_scraped_def Let_def split_beta)
qed

lemma absent_handle_scraped: "u \<notin> set (loadChunkFromStorage (handle_scraped sc u d s))"
proof (cases "classify d")
  case NoPosts
  then show ?thesis by (simp add: handle_scraped_def Let_def load_simps)
next
  case NoPostRecord
  then show ?thesis by (simp add: handle_scraped_def Let_def load_simps)
next
  case Posts
  let ?s4 = "set_status (StatusChecking u)
               (sleep 3000 (downloadCSV (generateCSV d) (getFilenameForUrl u) (clearHeartbeatTimer s)))"
  let ?w = "waitForFileDownload (file_found sc) ?s4"
  let ?s9 = "set_status (StatusDone u) (downloadUpdatedChunkFile (removeUrlFromStorage u
               (if \<not> fst ?w then console_log (WarnCsvTimeout u) (snd ?w) else snd ?w)))"
  have "u \<notin> set (loadChunkFromStorage ?s9)"
    by (simp add: load_simps)
  then have "u \<notin> set (loadChunkFromStorage (sleep 2000 ?s9))"
    using shrunk_set [OF shrunk_sleep [of 2000 ?s9]] by blast
  with Posts show ?thesis
    by (simp add: handle_scraped_def Let_def split_beta)
qed

lemma process_url_Continue:
  assumes "process_url sc u s = Continue s'"
  shows "shrunk (loadChunkFromStorage s') (loadChunkFromStorage s)
         \<and> u \<notin> set (loadChunkFromStorage s')"
proof -
  let ?s0 = "set_status (StatusNavigating u) s"
  let ?s4 = "run_events (page_events sc)
               (set_status (StatusScraping u) (startHeartbeatTimer u (sleep 2000 ?s0)))"
  have s4: "shrunk (loadChunkFromStorage ?s4) (loadChunkFromStorage s)"
  proof -
    have "shrunk (loadChunkFromStorage (set_status (StatusScraping u) (startHeartbeatTimer u (sleep 2000 ?s0))))
            (loadChunkFromStorage s)"
      using shrunk_sleep [of 2000 ?s0] by (simp add: load_simps)
    with shrunk_run_events show ?thesis by (rule shrunk_trans)
  qed
  from assms consider
      (nt) "s' = catch_skip (Error ''No active tab found.'') u ?s0"
    | (err) e where "s' = catch_skip e u ?s4"
    | (ok) d where "s' = handle_scraped sc u d ?s4"
    by (auto simp: process_url_def Let_def split: option.splits if_splits sum.splits)
  then show ?thesis
  proof cases
    case nt
    then show ?thesis
      using shrunk_catch_skip [of "Error ''No active tab found.''" u ?s0]
      by (simp add: absent_catch_skip load_simps)
  next
    case err
    then show ?thesis
      using shrunk_trans [OF shrunk_catch_skip s4] by (simp add: absent_catch_skip)
  next
    case ok
    then show ?thesis
      using shrunk_trans [OF shrunk_handle_scraped s4] by (simp add: absent_handle_scraped)
  qed
qed

section \<open>The main loop\<close>

text \<open>
  How a click ends: the loop finds the queue empty, the seed fails (the outer
  \<^verbatim>\<open>catch\<close>), or the popup waits for ever.
\<close>

datatype run_result =
    AllProcessed popup_state
  | FatalError popup_state
  | Hangs popup_state

text \<open>
  The \<^verbatim>\<open>while (true)\<close> loop. \<open>world url\<close> says how the browser and the page behave
  while \<open>url\<close> is processed; a URL is processed at most once in a run, since all its
  entries leave the queue together. The loop ends because every iteration that ends has
  removed the first URL of the queue and nothing adds to the queue.
\<close>

function main_loop :: "(string \<Rightarrow> scenario) \<Rightarrow> popup_state \<Rightarrow> run_result" where
  "main_loop world s =
     (case loadChunkFromStorage s of
        [] \<Rightarrow> AllProcessed (set_status StatusAllProcessed s)
      | url # rest \<Rightarrow>
          (case process_url (world url) url s of
             Blocked s' \<Rightarrow> Hangs s'
           | Continue s' \<Rightarrow> main_loop world s'))"
  by pat_completeness auto
termination
proof (relation "measure (\<lambda>(world, s). length (loadChunkFromStorage s))")
  show "wf (measure (\<lambda>(world, s). length (loadChunkFromStorage s)))"
    by simp
next
  fix world :: "string \<Rightarrow> scenario" and s s' :: popup_state and url rest
  assume q: "loadChunkFromStorage s = url # rest"
    and p: "process_url (world url) url s = Continue s'"
  from process_url_Continue [OF p] q
  have "length (loadChunkFromStorage s') < length (loadChunkFromStorage s)"
    by (intro shrunk_length_less [of _ _ url]) simp_all
  then show "((world, s'), (world, s)) \<in> measure (\<lambda>(world, s). length (loadChunkFromStorage s))"
    by simp
qed

declare main_loop.simps [simp del]

definition handleScrapeClick :: "(string \<Rightarrow> scenario) \<Rightarrow> fetch_result \<Rightarrow> popup_state \<Rightarrow> run_result" where
  "handleScrapeClick world fetched s =
     (let storedList = loadChunkFromStorage s
      in if storedList = [] then
           (let s1 = set_status StatusFetching s
            in case fetchChunkFile fetched of
                 Inl err \<Rightarrow>
                   FatalError (set_status (StatusFatal err) (console_log (ErrorFatal err) s1))
               | Inr listFromFile \<Rightarrow>
                   (let s2 = saveChunkToStorage listFromFile s1;
                        s3 = set_status (StatusLoaded (length listFromFile)) s2
                    in main_loop world s3))
         else main_loop world (set_status (StatusResuming (length storedList)) s))"

section \<open>Views of a run\<close>



text \<open>
  The warning that the stall handler writes before it skips; a state is free of stalls
  when its console holds none.
\<close>

fun is_stall_warning :: "log_entry \<Rightarrow> bool" where
  "is_stall_warning (WarnNoHeartbeat url) = True"
| "is_stall_warning e = False"

definition stall_free :: "popup_state \<Rightarrow> bool" where
  "stall_free s = (filter is_stall_warning (console s) = [])"

text \<open>
  No heartbeat timer: the variable is null and nothing is pending. In a quiet state at most
  one timeout is pending, the one that the variable names.
\<close>

definition idle :: "popup_state \<Rightarrow> bool" where
  "idle s = (heartbeatTimer s = None \<and> timers s = [])"

definition quiet :: "popup_state \<Rightarrow> bool" where
  "quiet s = (timers s = [] \<or> (\<exists>h d cb. heartbeatTimer s = Some h \<and> timers s = [(h, d, cb)]))"

text \<open>
  \<open>within_window T since evs\<close>: in \<open>evs\<close>, starting \<open>since\<close> ms after the timer was armed
  or last reset, the silence before each heartbeat and at the end stays below \<open>T\<close>.
\<close>

fun within_window :: "nat \<Rightarrow> nat \<Rightarrow> page_event list \<Rightarrow> bool" where
  "within_window T since [] = True"
| "within_window T since (Elapse ms # evs) = (since + ms < T \<and> within_window T (since + ms) evs)"
| "within_window T since (Message action # evs) =
     within_window T (if action = ''heartbeat'' then 0 else since) evs"

text \<open>
  \<open>armed since s\<close>: one timeout is pending, the one the variable names; it was set
  \<open>since\<close> ms ago with the configured delay.
\<close>

definition armed :: "nat \<Rightarrow> popup_state \<Rightarrow> bool" where
  "armed since s =
     (\<exists>h a cb. heartbeatTimer s = Some h \<and> timers s = [(h, a + heartbeatTimeoutMs s, cb)]
        \<and> a + since = clock s)"

text \<open>No pending timeout would call a stall handler.\<close>

definition only_warnings :: "popup_state \<Rightarrow> bool" where
  "only_warnings s = list_all (\<lambda>(h, d, cb). cb = WarnExpired) (timers s)"


text \<open>The strings among the entries of a JSON array, in order.\<close>

fun strings_of :: "json list \<Rightarrow> string list" where
  "strings_of [] = []"
| "strings_of (JStr s # es) = s # strings_of es"
| "strings_of (e # es) = strings_of es"

text \<open>
  A CSV text that the popup builds: the one of \<^verbatim>\<open>generateCSV\<close> for some records, or the one
  of \<^verbatim>\<open>downloadOneRowCSV\<close>. The downloads are well formed when every CSV file among them
  holds such a text.
\<close>

definition artifact_text :: "string \<Rightarrow> bool" where
  "artifact_text txt = ((\<exists>d. txt = generateCSV d) \<or> (\<exists>u p c. txt = oneRowCSV u p c))"

fun well_formed_download :: "download \<Rightarrow> bool" where
  "well_formed_download (CsvFile name txt) = artifact_text txt"
| "well_formed_download (ChunkFile q) = True"

definition well_formed_downloads :: "popup_state \<Rightarrow> bool" where
  "well_formed_downloads s = list_all well_formed_download (downloads s)"

text \<open>The state in which a run ends.\<close>

fun final_state :: "run_result \<Rightarrow> popup_state" where
  "final_state (AllProcessed s) = s"
| "final_state (FatalError s) = s"
| "final_state (Hangs s) = s"

section \<open>Concrete pages and queues\<close>

definition url_a :: string where
  "url_a = ''https://x/a''"

definition url_b :: string where
  "url_b = ''https://x/b''"

definition post1 :: extraction_record where
  "post1 = \<lparr>pageUrl = Some ''https://x/a'', pageName = Some ''X'', content = Some ''hello'',
            postDate = Some ''2024-01-01 00:00:00'', likes = Some ''3'', comments = Some ''0''\<rparr>"

definition post2 :: extraction_record where
  "post2 = \<lparr>pageUrl = Some ''https://x/a'', pageName = Some ''X'', content = Some ''bye'',
            postDate = Some ''2024-01-02 00:00:00'', likes = Some ''1'', comments = Some ''2''\<rparr>"

text \<open>
  A page in an active tab whose load completes and whose file is found at the first check;
  what happens while the popup waits, and the answer, are given.
\<close>

definition page :: "page_event list \<Rightarrow> tab_reply option \<Rightarrow> scenario" where
  "page evs r =
     \<lparr>active_tab = Some 1, navigation_completes = True, page_events = evs, reply = r,
      file_found = (\<lambda>attempt. True)\<rparr>"

text \<open>The state of a fresh popup whose storage holds the given queue.\<close>

definition queue_state :: "string list \<Rightarrow> popup_state" where
  "queue_state q = initial_state\<lparr>chunk_urls := Some q\<rparr>"

text \<open>The one record that contentScript.js returns for a page without a Posts link.\<close>

definition no_post_record :: "string \<Rightarrow> extraction_record" where
  "no_post_record url =
     \<lparr>pageUrl = Some url, pageName = Some ''not found'', content = Some ''no post'',
      postDate = Some [], likes = Some [], comments = Some []\<rparr>"

lemmas eval_defs =
  process_url_def handle_scraped_def catch_skip_def skipUrl_def run_events_def onMessage_def
  advance_def sleep_def run_callback_def startHeartbeatTimer_def resetHeartbeatTimer_def
  clearHeartbeatTimer_def clearTimeout_def setTimeout_def downloadCSV_def downloadOneRowCSV_def
  downloadUpdatedChunkFile_def console_log_def set_status_def removeUrlFromStorage_def
  saveChunkToStorage_def loadChunkFromStorage_def scrapeTab_def classify_def
  waitForFileDownload_def wait_attempts.simps initial_state_def queue_state_def page_def
  url_a_def url_b_def Let_def

section \<open>CSV quoting\<close>

lemma collapse_quotes_Cons:
  "c \<noteq> CHR 0x22 \<Longrightarrow> collapse_quotes (c # cs) = map_option ((#) c) (collapse_quotes cs)"
  by (cases cs) simp_all

lemma collapse_replace_quotes: "collapse_quotes (replace_quotes s) = Some s"
  by (induction s) (simp_all add: collapse_quotes_Cons)

text \<open>
  C8: every string, whatever quotes, commas or line feeds it holds, comes back unchanged
  when \<^verbatim>\<open>quoteCSV\<close> quotes it and the quoted cell is read again by stripping the outer
  quotes and collapsing the doubled quotes.
\<close>

theorem quoteCSV_round_trip: "parse_quoted_cell (quoteCSV (Some s)) = Some s"
proof -
  have q: "quoteCSV (Some s) = CHR 0x22 # replace_quotes s @ [CHR 0x22]"
    by (simp add: quoteCSV_def)
  show ?thesis
    unfolding q parse_quoted_cell_def by (simp add: collapse_replace_quotes)
qed

section \<open>Seeding the queue\<close>

lemma trim_empty_iff: "trim s = [] \<longleftrightarrow> blank s"
proof
  assume "blank s"
  then have "dropWhile is_js_space s = []"
    by (simp add: blank_def list_all_iff dropWhile_eq_Nil_conv)
  then show "trim s = []"
    unfolding trim_def by (simp only: rev.simps dropWhile.simps)
next
  assume t: "trim s = []"
  show "blank s"
  proof (rule ccontr)
    assume "\<not> blank s"
    then have ne: "dropWhile is_js_space s \<noteq> []"
      by (simp add: blank_def list_all_iff dropWhile_eq_Nil_conv)
    then have "\<not> is_js_space (hd (dropWhile is_js_space s))"
      by (rule hd_dropWhile)
    moreover have "hd (dropWhile is_js_space s) \<in> set (rev (dropWhile is_js_space s))"
      using ne by simp
    ultimately have "dropWhile is_js_space (rev (dropWhile is_js_space s)) \<noteq> []"
      by (simp add: dropWhile_eq_Nil_conv) blast
    with t show False by (simp add: trim_def)
  qed
qed

lemma blank_Nil: "blank []"
  by (simp add: blank_def)

lemma non_blank_entry_simps:
  "non_blank_entry JNull = False"
  "non_blank_entry (JStr s) = (\<not> blank s)"
  by (simp_all add: non_blank_entry_def)

lemma filter_entries_strings:
  "\<forall>e \<in> set arr. e = JNull \<or> (\<exists>s. e = JStr s) \<Longrightarrow>
   \<exists>r. filter_entries arr = Inr r \<and> map JStr r = filter non_blank_entry arr"
proof (induction arr)
  case Nil
  show ?case by simp
next
  case (Cons e arr)
  then obtain r where r: "filter_entries arr = Inr r" "map JStr r = filter non_blank_entry arr"
    by auto
  from Cons.prems have "e = JNull \<or> (\<exists>s. e = JStr s)" by simp
  then show ?case
  proof
    assume "e = JNull"
    then show ?thesis using r by (simp add: non_blank_entry_simps)
  next
    assume "\<exists>s. e = JStr s"
    then obtain s where "e = JStr s" ..
    then show ?thesis using r
      by (cases "s = []") (auto simp: non_blank_entry_simps trim_empty_iff blank_Nil)
  qed
qed

lemma keep_entry_error: "keep_entry e = Inl err \<Longrightarrow> err = TypeError"
  by (cases e) (auto split: if_splits)

lemma non_blank_entry_others:
  "non_blank_entry (JBool b) = False"
  "non_blank_entry (JNum n) = False"
  "non_blank_entry (JArray xs) = False"
  "non_blank_entry (JObject kvs) = False"
  by (simp_all add: non_blank_entry_def)

lemma filter_entries_any:
  "filter_entries arr
   = (if list_ex (\<lambda>e. keep_entry e = Inl TypeError) arr then Inl TypeError
      else Inr (strings_of (filter non_blank_entry arr)))"
proof (induction arr)
  case Nil
  show ?case by simp
next
  case (Cons e arr)
  show ?case
  proof (cases e)
    case (JStr s)
    then show ?thesis
      using Cons.IH
      by (cases "s = []") (simp_all add: non_blank_entry_simps trim_empty_iff blank_Nil)
  qed (use Cons.IH in \<open>simp_all add: non_blank_entry_simps non_blank_entry_others\<close>)
qed

text \<open>
  C10: for a source list whose entries are strings or null, \<^verbatim>\<open>fetchChunkFile\<close> returns
  the entries that are strings with a character other than white space, verbatim and in
  their order: null, empty and white-space-only entries are dropped, nothing is trimmed.
\<close>

theorem fetchChunkFile_keeps_non_blank:
  assumes "\<forall>e \<in> set arr. e = JNull \<or> (\<exists>s. e = JStr s)"
  shows "\<exists>r. fetchChunkFile (FetchResponse True (Some (JArray arr))) = Inr r
           \<and> map JStr r = filter non_blank_entry arr"
  using filter_entries_strings [OF assms] by (simp add: fetchChunkFile_def)

theorem fetchChunkFile_keeps_non_blank_witness:
  "fetchChunkFile (FetchResponse True (Some (JArray
      [JStr ''https://x/a'', JNull, JStr [], JStr ''  '', JStr '' https://x/b '', JStr ''https://x/a''])))
   = Inr [''https://x/a'', '' https://x/b '', ''https://x/a'']"
proof -
  let ?arr = "[JStr ''https://x/a'', JNull, JStr [], JStr ''  '', JStr '' https://x/b '', JStr ''https://x/a'']"
  have h: "\<forall>e \<in> set ?arr. e = JNull \<or> (\<exists>s. e = JStr s)" by simp
  from fetchChunkFile_keeps_non_blank [OF h]
  obtain r where r: "fetchChunkFile (FetchResponse True (Some (JArray ?arr))) = Inr r"
    and m: "map JStr r = filter non_blank_entry ?arr" by blast
  have "filter non_blank_entry ?arr = map JStr [''https://x/a'', '' https://x/b '', ''https://x/a'']"
    by (simp add: non_blank_entry_simps blank_def is_js_space_def)
  with m have "map JStr r = map JStr [''https://x/a'', '' https://x/b '', ''https://x/a'']" by simp
  then have "r = [''https://x/a'', '' https://x/b '', ''https://x/a'']"
    by (auto simp: map_eq_Cons_conv)
  with r show ?thesis by simp
qed

section \<open>Removing a URL from the persisted queue\<close>

lemma count_list_filter_other: "v \<noteq> u \<Longrightarrow> count_list (filter (\<lambda>item. item \<noteq> u) xs) v = count_list xs v"
  by (induction xs) auto

text \<open>
  C6: \<^verbatim>\<open>removeUrlFromStorage\<close> is idempotent: a second call with the same URL leaves the
  state as the first call left it, and a call with a URL that the persisted queue does not
  hold leaves the persisted queue as it was.
\<close>

theorem removeUrlFromStorage_idempotent:
  "removeUrlFromStorage u (removeUrlFromStorage u s) = removeUrlFromStorage u s
   \<and> (u \<notin> set (loadChunkFromStorage s) \<longrightarrow>
        loadChunkFromStorage (removeUrlFromStorage u s) = loadChunkFromStorage s)"
  by (auto simp: removeUrlFromStorage_def saveChunkToStorage_def loadChunkFromStorage_def Let_def
      filter_id_conv split: option.splits)

theorem removeUrlFromStorage_idempotent_witness:
  "loadChunkFromStorage (removeUrlFromStorage ''https://x/b''
      (removeUrlFromStorage ''https://x/b''
         (initial_state\<lparr>chunk_urls := Some [''https://x/a'', ''https://x/b'', ''https://x/a'']\<rparr>)))
   = [''https://x/a'', ''https://x/a'']
   \<and> loadChunkFromStorage (removeUrlFromStorage ''https://x/c''
        (initial_state\<lparr>chunk_urls := Some [''https://x/a'', ''https://x/b'', ''https://x/a'']\<rparr>))
     = [''https://x/a'', ''https://x/b'', ''https://x/a'']"
  using removeUrlFromStorage_idempotent [of "''https://x/b''"
      "initial_state\<lparr>chunk_urls := Some [''https://x/a'', ''https://x/b'', ''https://x/a'']\<rparr>"]
    removeUrlFromStorage_idempotent [of "''https://x/c''"
      "initial_state\<lparr>chunk_urls := Some [''https://x/a'', ''https://x/b'', ''https://x/a'']\<rparr>"]
  by (simp add: removeUrlFromStorage_def saveChunkToStorage_def loadChunkFromStorage_def)

text \<open>
  C7: \<^verbatim>\<open>removeUrlFromStorage(u)\<close> removes every entry equal to \<open>u\<close>; every other entry
  keeps its multiplicity, the entries left stand in the order they had, and no file is
  downloaded.
\<close>

theorem removeUrlFromStorage_frame:
  "u \<notin> set (loadChunkFromStorage (removeUrlFromStorage u s))
   \<and> (\<forall>v. v \<noteq> u \<longrightarrow>
         count_list (loadChunkFromStorage (removeUrlFromStorage u s)) v
         = count_list (loadChunkFromStorage s) v)
   \<and> subseq (loadChunkFromStorage (removeUrlFromStorage u s)) (loadChunkFromStorage s)
   \<and> downloads (removeUrlFromStorage u s) = downloads s"
  by (simp add: load_simps count_list_filter_other)
    (simp add: removeUrlFromStorage_def saveChunkToStorage_def)

theorem removeUrlFromStorage_frame_witness:
  "loadChunkFromStorage (removeUrlFromStorage ''https://x/a''
      (initial_state\<lparr>chunk_urls := Some [''https://x/a'', ''https://x/b'', ''https://x/a'', ''https://x/c'', ''https://x/b'']\<rparr>))
   = [''https://x/b'', ''https://x/c'', ''https://x/b'']
   \<and> count_list (loadChunkFromStorage (removeUrlFromStorage ''https://x/a''
      (initial_state\<lparr>chunk_urls := Some [''https://x/a'', ''https://x/b'', ''https://x/a'', ''https://x/c'', ''https://x/b'']\<rparr>))) ''https://x/b'' = 2"
  using removeUrlFromStorage_frame [of "''https://x/a''"
      "initial_state\<lparr>chunk_urls := Some [''https://x/a'', ''https://x/b'', ''https://x/a'', ''https://x/c'', ''https://x/b'']\<rparr>"]
  by (simp add: removeUrlFromStorage_def saveChunkToStorage_def loadChunkFromStorage_def)

section \<open>The heartbeat timer\<close>

text \<open>
  C2: the timer is armed for \<open>url_a\<close> with the timeout of 30000 ms; a heartbeat arrives
  after 1000 ms and then nothing for 30001 ms. The timeout that \<^verbatim>\<open>resetHeartbeatTimer\<close>
  set expires and writes its warning; the stall handler is not called: nothing is skipped
  and no file is downloaded. Without the heartbeat, 30001 ms of silence call the stall
  handler, which skips the page.
\<close>

theorem reset_timer_never_calls_stall_handler:
  "console (run_events [Elapse 1000, Message ''heartbeat'', Elapse 30001]
              (startHeartbeatTimer url_a (queue_state [url_a])))
     = [WarnTimerExpired]
   \<and> downloads (run_events [Elapse 1000, Message ''heartbeat'', Elapse 30001]
                  (startHeartbeatTimer url_a (queue_state [url_a])))
     = []
   \<and> timers (run_events [Elapse 1000, Message ''heartbeat'', Elapse 30001]
               (startHeartbeatTimer url_a (queue_state [url_a])))
     = []
   \<and> console (run_events [Elapse 30001] (startHeartbeatTimer url_a (queue_state [url_a])))
     = [WarnNoHeartbeat url_a, WarnSkipping url_a]"
  by (simp add: eval_defs cong: let_weak_cong)

section \<open>One iteration\<close>

text \<open>
  C1: the queue holds \<open>url_a\<close>; no heartbeat arrives for 30000 ms, so the stall handler
  skips the page: the skipped artifact and the queue snapshot are downloaded and the queue
  is empty, while the popup still waits for the page's answer. When the answer then arrives
  with two posts, the iteration goes on and downloads a second artifact for the same page
  and a second snapshot.
\<close>

theorem late_reply_after_stall_emits_again:
  "(case process_url (page [Elapse 30000] None) url_a (queue_state [url_a]) of
      Blocked s \<Rightarrow>
        downloads s = [CsvFile ''a.csv'' (oneRowCSV url_a ''skipped'' ''no post or error''), ChunkFile []]
        \<and> chunk_urls s = Some []
    | Continue s \<Rightarrow> False)
   \<and> (case process_url (page [Elapse 30000] (Some (Reply (Some [post1, post2])))) url_a
              (queue_state [url_a]) of
      Continue s \<Rightarrow>
        downloads s = [CsvFile ''a.csv'' (oneRowCSV url_a ''skipped'' ''no post or error''), ChunkFile [],
                       CsvFile ''a.csv'' (generateCSV [post1, post2]), ChunkFile []]
        \<and> chunk_urls s = Some []
    | Blocked s \<Rightarrow> False)"
  by (simp add: eval_defs getFilenameForUrl_def cong: let_weak_cong)

text \<open>
  C5: the queue holds \<open>url_a\<close> and \<open>url_b\<close>; the page of \<open>url_a\<close> sends no heartbeat
  and never answers. The stall handler skips \<open>url_a\<close> (skipped artifact, queue snapshot,
  \<open>url_b\<close> left in the queue), but the loop still waits for the answer and never turns
  to \<open>url_b\<close>.
\<close>

theorem stall_without_reply_halts_loop:
  "(case main_loop (\<lambda>url. if url = url_a then page [Elapse 30000] None
                            else page [] (Some (Reply (Some [post1]))))
          (queue_state [url_a, url_b]) of
      Hangs s \<Rightarrow>
        downloads s = [CsvFile ''a.csv'' (oneRowCSV url_a ''skipped'' ''no post or error''),
                       ChunkFile [url_b]]
        \<and> loadChunkFromStorage s = [url_b]
    | AllProcessed s \<Rightarrow> False
    | FatalError s \<Rightarrow> False)"
  by (simp add: main_loop.simps eval_defs getFilenameForUrl_def cong: let_weak_cong)

section \<open>The artifacts\<close>

lemma join_headers: "join '','' headers = ''PageURL,PageName,Content,PostDate,Likes,Comments''"
  by (simp add: headers_def)

lemma last_quoteCSV: "last (quoteCSV x) = CHR 0x22"
  by (simp add: quoteCSV_def)

lemma last_generateCSV_single: "last (generateCSV [r]) = CHR 0x22"
  by (simp add: generateCSV_def csv_row_def last_quoteCSV quoteCSV_def)

lemma last_oneRowCSV: "last (oneRowCSV url pgName cont) = CHR '',''"
  by (simp add: oneRowCSV_def)

lemma join_lines: "join [CHR 0x0A] (h # rows) = h @ concat (map (\<lambda>r. CHR 0x0A # r) rows)"
  by (induction rows arbitrary: h) simp_all

text \<open>
  C4: a result of exactly one record whose page name is \<open>not found\<close> and whose content
  is \<open>no post\<close> takes the branch of the unclaimed page, not the one of posts: the status
  says so, and the artifact downloaded is the header and the one row of that record, which
  is not the placeholder row of \<^verbatim>\<open>downloadOneRowCSV\<close>; the URL leaves the queue and the
  snapshot follows.
\<close>

theorem no_post_record_is_logged_as_such:
  assumes "pageName r = Some ''not found''" and "content r = Some ''no post''"
  shows \<open>classify [r] = NoPostRecord
    \<and> statusText (handle_scraped sc url [r] s) = StatusUnclaimed url
    \<and> downloads (handle_scraped sc url [r] s)
        = downloads s
          @ [CsvFile (getFilenameForUrl url)
               (''PageURL,PageName,Content,PostDate,Likes,Comments'' @ [CHR 0x0A]
                @ quoteCSV (pageUrl r) @ '',"not found","no post",''
                @ quoteCSV (postDate r) @ '','' @ quoteCSV (likes r) @ '','' @ quoteCSV (comments r)),
             ChunkFile (filter (\<lambda>item. item \<noteq> url) (loadChunkFromStorage s))]
    \<and> loadChunkFromStorage (handle_scraped sc url [r] s)
        = filter (\<lambda>item. item \<noteq> url) (loadChunkFromStorage s)
    \<and> generateCSV [r] \<noteq> oneRowCSV url ''not found'' ''no post''\<close>
proof -
  have c: "classify [r] = NoPostRecord"
    using assms by (simp add: classify_def)
  have g: \<open>generateCSV [r]
      = ''PageURL,PageName,Content,PostDate,Likes,Comments'' @ [CHR 0x0A]
        @ quoteCSV (pageUrl r) @ '',"not found","no post",''
        @ quoteCSV (postDate r) @ '','' @ quoteCSV (likes r) @ '','' @ quoteCSV (comments r)\<close>
    using assms by (simp add: generateCSV_def csv_row_def join_headers quoteCSV_def)
  have h: "handle_scraped sc url [r] s
      = downloadUpdatedChunkFile (removeUrlFromStorage url
          (downloadCSV (generateCSV [r]) (getFilenameForUrl url)
             (set_status (StatusUnclaimed url) (clearHeartbeatTimer s))))"
    by (simp add: handle_scraped_def c Let_def)
  have d: "generateCSV [r] \<noteq> oneRowCSV url ''not found'' ''no post''"
  proof
    assume "generateCSV [r] = oneRowCSV url ''not found'' ''no post''"
    then have "last (generateCSV [r]) = last (oneRowCSV url ''not found'' ''no post'')"
      by simp
    then show False
      by (simp add: last_generateCSV_single last_oneRowCSV)
  qed
  have dl: "downloads (handle_scraped sc url [r] s)
      = downloads s @ [CsvFile (getFilenameForUrl url) (generateCSV [r]),
                       ChunkFile (filter (\<lambda>item. item \<noteq> url) (loadChunkFromStorage s))]"
    unfolding h
    by (simp add: downloadUpdatedChunkFile_def removeUrlFromStorage_def saveChunkToStorage_def
        downloadCSV_def set_status_def clearHeartbeatTimer_def clearTimeout_def
        loadChunkFromStorage_def Let_def split: option.splits)
  have st: "statusText (handle_scraped sc url [r] s) = StatusUnclaimed url"
    unfolding h
    by (simp add: downloadUpdatedChunkFile_def removeUrlFromStorage_def saveChunkToStorage_def
        downloadCSV_def set_status_def clearHeartbeatTimer_def clearTimeout_def
        loadChunkFromStorage_def Let_def split: option.splits)
  have ld: "loadChunkFromStorage (handle_scraped sc url [r] s)
      = filter (\<lambda>item. item \<noteq> url) (loadChunkFromStorage s)"
    unfolding h by (simp add: load_simps)
  from c st dl ld d show ?thesis
    unfolding g by simp
qed

theorem no_post_record_is_logged_as_such_witness:
  \<open>classify [no_post_record url_a] = NoPostRecord
   \<and> downloads (handle_scraped (page [] (Some (Reply (Some [no_post_record url_a])))) url_a
                  [no_post_record url_a] (queue_state [url_a, url_b]))
     = [CsvFile ''a.csv''
          ''PageURL,PageName,Content,PostDate,Likes,Comments\<newline>"https://x/a","not found","no post","","",""'',
        ChunkFile [url_b]]\<close>
proof -
  have p: "pageName (no_post_record url_a) = Some ''not found''"
    and c: "content (no_post_record url_a) = Some ''no post''"
    by (simp_all add: no_post_record_def)
  from no_post_record_is_logged_as_such [OF p c,
      of "page [] (Some (Reply (Some [no_post_record url_a])))" url_a "queue_state [url_a, url_b]"]
  show ?thesis
    by (simp add: no_post_record_def quoteCSV_def getFilenameForUrl_def url_a_def url_b_def
        queue_state_def initial_state_def loadChunkFromStorage_def)
qed

text \<open>
  C9, as stated, fails on the one-row artifacts: the row that \<^verbatim>\<open>downloadOneRowCSV\<close>
  writes for a skipped page ends in three empty fields without quotes, so it is not the
  row in which each of the six fields is quoted.
\<close>

theorem one_row_csv_trailing_fields_unquoted:
  \<open>downloads (downloadOneRowCSV url_a ''skipped'' ''no post or error'' initial_state)
     = [CsvFile ''a.csv''
          ''PageURL,PageName,Content,PostDate,Likes,Comments\<newline>"https://x/a","skipped","no post or error",,,'']
   \<and> oneRowCSV url_a ''skipped'' ''no post or error''
     \<noteq> join [CHR 0x0A]
          [join '','' headers,
           join '','' (map quoteCSV [Some url_a, Some ''skipped'', Some ''no post or error'',
                                    Some [], Some [], Some []])]\<close>
  by (simp add: downloadOneRowCSV_def downloadCSV_def oneRowCSV_def quoteCSV_def headers_def
      getFilenameForUrl_def initial_state_def url_a_def)

text \<open>
  C9, amended: the text of \<^verbatim>\<open>generateCSV\<close> is the header line
  \<open>PageURL,PageName,Content,PostDate,Likes,Comments\<close> followed by one line per record
  whose six fields are each quoted by \<^verbatim>\<open>quoteCSV\<close>; the text that
  \<^verbatim>\<open>downloadOneRowCSV\<close> downloads is the same header line followed by one line whose
  first three fields are quoted and whose last three are empty and not quoted;
  \<^verbatim>\<open>quoteCSV\<close> wraps its argument in double quotes and doubles each quote inside.
\<close>

theorem csv_artifacts_header_and_quoting:
  "generateCSV dataArray
     = ''PageURL,PageName,Content,PostDate,Likes,Comments''
       @ concat (map (\<lambda>item. CHR 0x0A #
           quoteCSV (pageUrl item) @ '','' @ quoteCSV (pageName item) @ '','' @
           quoteCSV (content item) @ '','' @ quoteCSV (postDate item) @ '','' @
           quoteCSV (likes item) @ '','' @ quoteCSV (comments item)) dataArray)
   \<and> oneRowCSV url pgName cont
     = ''PageURL,PageName,Content,PostDate,Likes,Comments'' @ [CHR 0x0A]
       @ quoteCSV (Some url) @ '','' @ quoteCSV (Some pgName) @ '','' @ quoteCSV (Some cont)
       @ '',,,''
   \<and> downloads (downloadOneRowCSV url pgName cont s)
     = downloads s @ [CsvFile (getFilenameForUrl url) (oneRowCSV url pgName cont)]
   \<and> quoteCSV (Some str) = CHR 0x22 # replace_quotes str @ [CHR 0x22]
   \<and> quoteCSV None = [CHR 0x22, CHR 0x22]"
proof -
  have "generateCSV dataArray
     = ''PageURL,PageName,Content,PostDate,Likes,Comments''
       @ concat (map (\<lambda>item. CHR 0x0A # csv_row item) dataArray)"
    unfolding generateCSV_def join_lines join_headers by (simp add: comp_def)
  then show ?thesis
    by (simp add: csv_row_def oneRowCSV_def join_headers downloadOneRowCSV_def downloadCSV_def
        quoteCSV_def)
qed

section \<open>A whole run\<close>


lemma idle_quiet: "idle s \<Longrightarrow> quiet s"
  by (simp add: idle_def quiet_def)

lemma stall_free_prefix: "prefix (console s) (console s') \<Longrightarrow> stall_free s' \<Longrightarrow> stall_free s"
  by (auto simp: stall_free_def prefix_def)

lemma advance_no_timers: "timers s = [] \<Longrightarrow> advance ms s = s\<lparr>clock := clock s + ms\<rparr>"
  by (simp add: advance_def Let_def)

lemma sleep_idle: "idle s \<Longrightarrow> sleep ms s = s\<lparr>clock := clock s + ms\<rparr>"
  by (simp add: sleep_def idle_def advance_no_timers)

lemma clear_quiet:
  assumes "quiet s"
  shows "clearHeartbeatTimer s = s\<lparr>heartbeatTimer := None, timers := []\<rparr>"
  using assms
  by (cases "heartbeatTimer s") (auto simp: quiet_def clearHeartbeatTimer_def clearTimeout_def)

lemma start_quiet:
  assumes "quiet s"
  shows "startHeartbeatTimer u s
    = s\<lparr>heartbeatTimer := Some (Suc (last_timer_id s)),
         timers := [(Suc (last_timer_id s), clock s + heartbeatTimeoutMs s, OnTimeout u)],
         last_timer_id := Suc (last_timer_id s)\<rparr>"
  by (simp add: startHeartbeatTimer_def clear_quiet [OF assms] setTimeout_def Let_def)

lemma reset_quiet:
  assumes "quiet s"
  shows "quiet (resetHeartbeatTimer s) \<and> console (resetHeartbeatTimer s) = console s
    \<and> downloads (resetHeartbeatTimer s) = downloads s
    \<and> chunk_urls (resetHeartbeatTimer s) = chunk_urls s"
  using assms
  by (cases "heartbeatTimer s")
    (auto simp: quiet_def resetHeartbeatTimer_def clearTimeout_def setTimeout_def Let_def)

lemma run_callback_effect:
  "timers (run_callback cb s) = timers s \<and> heartbeatTimer (run_callback cb s) = heartbeatTimer s
   \<and> prefix (console s) (console (run_callback cb s))
   \<and> (stall_free (run_callback cb s) \<longrightarrow>
        downloads (run_callback cb s) = downloads s \<and> chunk_urls (run_callback cb s) = chunk_urls s)"
  by (cases cb)
    (simp_all add: run_callback_def skipUrl_def console_log_def downloadOneRowCSV_def downloadCSV_def
      removeUrlFromStorage_def saveChunkToStorage_def downloadUpdatedChunkFile_def Let_def
      stall_free_def)

lemma advance_quiet:
  assumes "quiet s"
  shows "quiet (advance ms s) \<and> prefix (console s) (console (advance ms s))
    \<and> (stall_free (advance ms s) \<longrightarrow>
         downloads (advance ms s) = downloads s \<and> chunk_urls (advance ms s) = chunk_urls s)"
proof (cases "timers s")
  case Nil
  then show ?thesis by (simp add: advance_no_timers quiet_def)
next
  case (Cons t ts)
  with assms obtain h d cb where t: "timers s = [(h, d, cb)]" and hb: "heartbeatTimer s = Some h"
    by (auto simp: quiet_def)
  show ?thesis
  proof (cases "d \<le> clock s + ms")
    case False
    then have "advance ms s = s\<lparr>timers := [(h, d, cb)], clock := clock s + ms\<rparr>"
      by (simp add: advance_def Let_def t)
    then show ?thesis using t hb by (simp add: quiet_def)
  next
    case True
    then have a: "advance ms s = (run_callback cb (s\<lparr>timers := []\<rparr>))\<lparr>clock := clock s + ms\<rparr>"
      by (simp add: advance_def Let_def t)
    show ?thesis
      using run_callback_effect [of cb "s\<lparr>timers := []\<rparr>"]
      by (simp add: a quiet_def stall_free_def)
  qed
qed

lemma deliver_quiet:
  assumes "quiet s"
  shows "quiet (deliver ev s) \<and> prefix (console s) (console (deliver ev s))
    \<and> (stall_free (deliver ev s) \<longrightarrow>
         downloads (deliver ev s) = downloads s \<and> chunk_urls (deliver ev s) = chunk_urls s)"
proof (cases ev)
  case (Elapse ms)
  then show ?thesis using advance_quiet [OF assms] by simp
next
  case (Message action)
  then show ?thesis using reset_quiet [OF assms] assms by (simp add: onMessage_def)
qed

lemma run_events_quiet:
  "quiet s \<Longrightarrow>
   quiet (run_events evs s) \<and> prefix (console s) (console (run_events evs s))
   \<and> (stall_free (run_events evs s) \<longrightarrow>
        downloads (run_events evs s) = downloads s \<and> chunk_urls (run_events evs s) = chunk_urls s)"
  unfolding run_events_def
proof (induction evs arbitrary: s)
  case Nil
  then show ?case by simp
next
  case (Cons ev evs)
  let ?s1 = "deliver ev s"
  from deliver_quiet [OF Cons.prems]
  have q1: "quiet ?s1" and p1: "prefix (console s) (console ?s1)"
    and d1: "stall_free ?s1 \<longrightarrow> downloads ?s1 = downloads s \<and> chunk_urls ?s1 = chunk_urls s"
    by simp_all
  from Cons.IH [OF q1]
  have q2: "quiet (fold deliver evs ?s1)"
    and p2: "prefix (console ?s1) (console (fold deliver evs ?s1))"
    and d2: "stall_free (fold deliver evs ?s1) \<longrightarrow>
       downloads (fold deliver evs ?s1) = downloads ?s1
       \<and> chunk_urls (fold deliver evs ?s1) = chunk_urls ?s1"
    by simp_all
  have "stall_free (fold deliver evs ?s1) \<longrightarrow> stall_free ?s1"
    using stall_free_prefix [OF p2] by blast
  with q2 p1 p2 d1 d2 show ?case
    by (auto intro: prefix_order.trans)
qed


lemma skipUrl_effect:
  "downloads (skipUrl u s)
     = downloads s @ [CsvFile (getFilenameForUrl u) (oneRowCSV u ''skipped'' ''no post or error''),
                      ChunkFile (filter (\<lambda>item. item \<noteq> u) (loadChunkFromStorage s))]
   \<and> console (skipUrl u s) = console s @ [WarnSkipping u]
   \<and> heartbeatTimer (skipUrl u s) = heartbeatTimer s
   \<and> timers (skipUrl u s) = timers s"
  by (simp add: skipUrl_def console_log_def downloadOneRowCSV_def downloadCSV_def
      removeUrlFromStorage_def saveChunkToStorage_def downloadUpdatedChunkFile_def
      loadChunkFromStorage_def Let_def)










section \<open>The heartbeat window\<close>

lemma armed_start: "quiet s \<Longrightarrow> armed 0 (startHeartbeatTimer u s)"
  by (simp add: start_quiet armed_def)

lemma armed_elapse:
  assumes "armed since s" and "since + ms < heartbeatTimeoutMs s"
  shows "advance ms s = s\<lparr>clock := clock s + ms\<rparr>"
proof -
  from assms(1) obtain h a cb where t: "timers s = [(h, a + heartbeatTimeoutMs s, cb)]"
    and c: "a + since = clock s"
    by (auto simp: armed_def)
  from c assms(2) have "\<not> a + heartbeatTimeoutMs s \<le> clock s + ms" by arith
  then show ?thesis
    by (simp add: advance_def Let_def t)
qed

lemma armed_reset:
  assumes "armed since s"
  shows "armed 0 (resetHeartbeatTimer s) \<and> console (resetHeartbeatTimer s) = console s
    \<and> downloads (resetHeartbeatTimer s) = downloads s
    \<and> chunk_urls (resetHeartbeatTimer s) = chunk_urls s
    \<and> heartbeatTimeoutMs (resetHeartbeatTimer s) = heartbeatTimeoutMs s"
  using assms
  by (auto simp: armed_def resetHeartbeatTimer_def clearTimeout_def setTimeout_def Let_def)

lemma within_window_silent:
  "armed since s \<Longrightarrow> within_window (heartbeatTimeoutMs s) since evs \<Longrightarrow>
   console (run_events evs s) = console s \<and> downloads (run_events evs s) = downloads s
   \<and> chunk_urls (run_events evs s) = chunk_urls s"
  unfolding run_events_def
proof (induction evs arbitrary: s since)
  case Nil
  show ?case by simp
next
  case (Cons ev evs)
  show ?case
  proof (cases ev)
    case (Elapse ms)
    with Cons.prems have lt: "since + ms < heartbeatTimeoutMs s"
      and w: "within_window (heartbeatTimeoutMs s) (since + ms) evs"
      by simp_all
    have a: "advance ms s = s\<lparr>clock := clock s + ms\<rparr>"
      using Cons.prems(1) lt by (rule armed_elapse)
    have "armed (since + ms) (advance ms s)"
      using Cons.prems(1) by (auto simp: a armed_def)
    from Cons.IH [OF this] w show ?thesis
      by (simp add: Elapse a)
  next
    case (Message action)
    show ?thesis
    proof (cases "action = ''heartbeat''")
      case True
      from armed_reset [OF Cons.prems(1)]
      have r: "armed 0 (resetHeartbeatTimer s)"
        and e: "console (resetHeartbeatTimer s) = console s"
          "downloads (resetHeartbeatTimer s) = downloads s"
          "chunk_urls (resetHeartbeatTimer s) = chunk_urls s"
          "heartbeatTimeoutMs (resetHeartbeatTimer s) = heartbeatTimeoutMs s"
        by simp_all
      from Cons.prems(2) have "within_window (heartbeatTimeoutMs (resetHeartbeatTimer s)) 0 evs"
        by (simp add: Message True e)
      from Cons.IH [OF r this] show ?thesis
        by (simp add: Message True onMessage_def e)
    next
      case False
      with Cons.prems(2) have "within_window (heartbeatTimeoutMs s) since evs"
        by (simp add: Message)
      from Cons.IH [OF Cons.prems(1) this] show ?thesis
        by (simp add: Message False onMessage_def)
    qed
  qed
qed

text \<open>
  X1: once the heartbeat timer is armed, heartbeats that keep every silence below the
  timeout never let the stall handler run, however long the page takes: the console, the
  downloads and the queue stay as they were.
\<close>

theorem heartbeats_within_window_never_stall:
  assumes "quiet s" and "within_window (heartbeatTimeoutMs s) 0 evs"
  shows "console (run_events evs (startHeartbeatTimer u s)) = console s
    \<and> downloads (run_events evs (startHeartbeatTimer u s)) = downloads s
    \<and> chunk_urls (run_events evs (startHeartbeatTimer u s)) = chunk_urls s"
proof -
  have t: "heartbeatTimeoutMs (startHeartbeatTimer u s) = heartbeatTimeoutMs s"
    and e: "console (startHeartbeatTimer u s) = console s"
      "downloads (startHeartbeatTimer u s) = downloads s"
      "chunk_urls (startHeartbeatTimer u s) = chunk_urls s"
    by (simp_all add: start_quiet [OF assms(1)])
  from within_window_silent [OF armed_start [OF assms(1), of u], of evs] assms(2)
  show ?thesis by (simp add: t e)
qed

theorem heartbeats_within_window_never_stall_witness:
  "within_window 30000 0
     [Elapse 29999, Message ''heartbeat'', Elapse 29999, Message ''heartbeat'', Elapse 29999]
   \<and> console (run_events
        [Elapse 29999, Message ''heartbeat'', Elapse 29999, Message ''heartbeat'', Elapse 29999]
        (startHeartbeatTimer url_a (queue_state [url_a]))) = []
   \<and> downloads (run_events
        [Elapse 29999, Message ''heartbeat'', Elapse 29999, Message ''heartbeat'', Elapse 29999]
        (startHeartbeatTimer url_a (queue_state [url_a]))) = []"
proof -
  let ?evs = "[Elapse 29999, Message ''heartbeat'', Elapse 29999, Message ''heartbeat'', Elapse 29999]"
  have q: "quiet (queue_state [url_a])"
    by (simp add: quiet_def queue_state_def initial_state_def)
  have w: "within_window (heartbeatTimeoutMs (queue_state [url_a])) 0 ?evs"
    by (simp add: queue_state_def initial_state_def)
  have w': "within_window 30000 0 ?evs"
    by simp
  from heartbeats_within_window_never_stall [OF q w, of url_a] w' show ?thesis
    by (simp add: queue_state_def initial_state_def)
qed

lemma only_warnings_run_callback:
  assumes "cb = WarnExpired"
  shows "run_callback cb s = s\<lparr>console := console s @ [WarnTimerExpired]\<rparr>"
  using assms by (simp add: run_callback_def console_log_def)

lemma only_warnings_fold:
  "list_all (\<lambda>(h, d, cb). cb = WarnExpired) due \<Longrightarrow>
   timers (fold (\<lambda>(h, d, cb). run_callback cb) due s) = timers s
   \<and> downloads (fold (\<lambda>(h, d, cb). run_callback cb) due s) = downloads s
   \<and> chunk_urls (fold (\<lambda>(h, d, cb). run_callback cb) due s) = chunk_urls s
   \<and> heartbeatTimer (fold (\<lambda>(h, d, cb). run_callback cb) due s) = heartbeatTimer s
   \<and> filter is_stall_warning (console (fold (\<lambda>(h, d, cb). run_callback cb) due s))
     = filter is_stall_warning (console s)"
proof (induction due arbitrary: s)
  case Nil
  show ?case by simp
next
  case (Cons t due)
  obtain h d cb where t: "t = (h, d, cb)" by (cases t)
  with Cons.prems have cb: "cb = WarnExpired" and r: "list_all (\<lambda>(h, d, cb). cb = WarnExpired) due"
    by simp_all
  from Cons.IH [OF r, of "s\<lparr>console := console s @ [WarnTimerExpired]\<rparr>"]
  show ?case
    by (simp add: t only_warnings_run_callback [OF cb])
qed

lemma only_warnings_advance:
  assumes "only_warnings s"
  shows "only_warnings (advance ms s) \<and> downloads (advance ms s) = downloads s
    \<and> chunk_urls (advance ms s) = chunk_urls s
    \<and> filter is_stall_warning (console (advance ms s)) = filter is_stall_warning (console s)"
proof -
  let ?t = "clock s + ms"
  let ?due = "filter (\<lambda>(h, d, cb). d \<le> ?t) (timers s)"
  let ?rest = "filter (\<lambda>(h, d, cb). \<not> d \<le> ?t) (timers s)"
  have d: "list_all (\<lambda>(h, d, cb). cb = WarnExpired) ?due"
    and r: "list_all (\<lambda>(h, d, cb). cb = WarnExpired) ?rest"
    using assms by (auto simp: only_warnings_def list_all_iff)
  from only_warnings_fold [OF d, of "s\<lparr>timers := ?rest\<rparr>"] r show ?thesis
    by (simp add: advance_def Let_def only_warnings_def)
qed

lemma only_warnings_reset:
  assumes "only_warnings s"
  shows "only_warnings (resetHeartbeatTimer s) \<and> downloads (resetHeartbeatTimer s) = downloads s
    \<and> chunk_urls (resetHeartbeatTimer s) = chunk_urls s
    \<and> console (resetHeartbeatTimer s) = console s"
  using assms
  by (cases "heartbeatTimer s")
    (auto simp: only_warnings_def resetHeartbeatTimer_def clearTimeout_def setTimeout_def
      Let_def list_all_iff)

lemma only_warnings_run_events:
  "only_warnings s \<Longrightarrow>
   downloads (run_events evs s) = downloads s \<and> chunk_urls (run_events evs s) = chunk_urls s
   \<and> filter is_stall_warning (console (run_events evs s)) = filter is_stall_warning (console s)"
  unfolding run_events_def
proof (induction evs arbitrary: s)
  case Nil
  show ?case by simp
next
  case (Cons ev evs)
  show ?case
  proof (cases ev)
    case (Elapse ms)
    from only_warnings_advance [OF Cons.prems, of ms]
    have o: "only_warnings (advance ms s)"
      and e: "downloads (advance ms s) = downloads s" "chunk_urls (advance ms s) = chunk_urls s"
        "filter is_stall_warning (console (advance ms s)) = filter is_stall_warning (console s)"
      by simp_all
    from Cons.IH [OF o] show ?thesis
      by (simp add: Elapse e)
  next
    case (Message action)
    from only_warnings_reset [OF Cons.prems]
    have o: "only_warnings (onMessage action s)"
      and e: "downloads (onMessage action s) = downloads s"
        "chunk_urls (onMessage action s) = chunk_urls s"
        "console (onMessage action s) = console s"
      using Cons.prems by (simp_all add: onMessage_def)
    from Cons.IH [OF o] show ?thesis
      by (simp add: Message e)
  qed
qed

text \<open>
  X2: after one heartbeat the stall handler is out of reach: whatever follows, however
  long the silence, no page is skipped by the timer; the downloads and the queue stay as
  they were and the console gets no stall warning.
\<close>

theorem after_heartbeat_stall_handler_never_runs:
  assumes "quiet s"
  shows "downloads (run_events evs (onMessage ''heartbeat'' s)) = downloads s
    \<and> chunk_urls (run_events evs (onMessage ''heartbeat'' s)) = chunk_urls s
    \<and> filter is_stall_warning (console (run_events evs (onMessage ''heartbeat'' s)))
      = filter is_stall_warning (console s)"
proof -
  from reset_quiet [OF assms]
  have e: "console (resetHeartbeatTimer s) = console s"
    "downloads (resetHeartbeatTimer s) = downloads s"
    "chunk_urls (resetHeartbeatTimer s) = chunk_urls s"
    by simp_all
  have "only_warnings (resetHeartbeatTimer s)"
    using assms
    by (cases "heartbeatTimer s")
      (auto simp: quiet_def only_warnings_def resetHeartbeatTimer_def clearTimeout_def
        setTimeout_def Let_def)
  from only_warnings_run_events [OF this, of evs] show ?thesis
    by (simp add: onMessage_def e)
qed

theorem after_heartbeat_stall_handler_never_runs_witness:
  "downloads (run_events [Elapse 100000]
      (onMessage ''heartbeat'' (startHeartbeatTimer url_a (queue_state [url_a])))) = []
   \<and> console (run_events [Elapse 100000]
      (onMessage ''heartbeat'' (startHeartbeatTimer url_a (queue_state [url_a]))))
     = [WarnTimerExpired]"
proof -
  have "quiet (queue_state [url_a])"
    by (simp add: quiet_def queue_state_def initial_state_def)
  then have q: "quiet (startHeartbeatTimer url_a (queue_state [url_a]))"
    by (simp add: start_quiet quiet_def)
  have c: "console (run_events [Elapse 100000]
      (onMessage ''heartbeat'' (startHeartbeatTimer url_a (queue_state [url_a]))))
     = [WarnTimerExpired]"
    by (simp add: eval_defs cong: let_weak_cong)
  from after_heartbeat_stall_handler_never_runs [OF q, of "[Elapse 100000]"] c show ?thesis
    by (simp add: start_quiet queue_state_def initial_state_def quiet_def)
qed

lemma elapse_no_timers:
  "timers s = [] \<Longrightarrow> run_events (map Elapse ds) s = s\<lparr>clock := clock s + sum_list ds\<rparr>"
  unfolding run_events_def
proof (induction ds arbitrary: s)
  case Nil
  show ?case by simp
next
  case (Cons d ds)
  have a: "advance d s = s\<lparr>clock := clock s + d\<rparr>"
    using Cons.prems by (rule advance_no_timers)
  have "timers (advance d s) = []"
    using Cons.prems by (simp add: a)
  from Cons.IH [OF this] show ?case
    by (simp add: a add.assoc)
qed

lemma silence_fires_stall_handler:
  assumes "timers s = [(h, a + heartbeatTimeoutMs s, OnTimeout u)]" and "a + since = clock s"
    and "since < heartbeatTimeoutMs s" and "heartbeatTimeoutMs s \<le> since + sum_list ds"
  shows "run_events (map Elapse ds) s
    = (run_callback (OnTimeout u) (s\<lparr>timers := []\<rparr>))\<lparr>clock := clock s + sum_list ds\<rparr>"
  using assms
proof (induction ds arbitrary: s since)
  case Nil
  then show ?case by simp
next
  case (Cons d ds)
  show ?case
  proof (cases "since + d < heartbeatTimeoutMs s")
    case True
    with Cons.prems(2) have "\<not> a + heartbeatTimeoutMs s \<le> clock s + d" by arith
    then have adv: "advance d s = s\<lparr>clock := clock s + d\<rparr>"
      by (simp add: advance_def Let_def Cons.prems(1))
    have "run_events (map Elapse ds) (advance d s)
      = (run_callback (OnTimeout u) ((advance d s)\<lparr>timers := []\<rparr>))
          \<lparr>clock := clock (advance d s) + sum_list ds\<rparr>"
    proof (rule Cons.IH [where since = "since + d"])
      show "timers (advance d s) = [(h, a + heartbeatTimeoutMs (advance d s), OnTimeout u)]"
        by (simp add: adv Cons.prems(1))
      show "a + (since + d) = clock (advance d s)"
        using Cons.prems(2) by (simp add: adv)
      show "since + d < heartbeatTimeoutMs (advance d s)"
        using True by (simp add: adv)
      show "heartbeatTimeoutMs (advance d s) \<le> since + d + sum_list ds"
        using Cons.prems(4) by (simp add: adv)
    qed
    then show ?thesis
      by (simp add: run_events_def adv run_callback_def skipUrl_def console_log_def
          downloadOneRowCSV_def downloadCSV_def removeUrlFromStorage_def saveChunkToStorage_def
          downloadUpdatedChunkFile_def loadChunkFromStorage_def Let_def add.assoc)
  next
    case False
    with Cons.prems(2) have "a + heartbeatTimeoutMs s \<le> clock s + d" by arith
    then have adv: "advance d s
        = (run_callback (OnTimeout u) (s\<lparr>timers := []\<rparr>))\<lparr>clock := clock s + d\<rparr>"
      by (simp add: advance_def Let_def Cons.prems(1))
    have "timers (advance d s) = []"
      by (simp add: adv run_callback_def skipUrl_def console_log_def
          downloadOneRowCSV_def downloadCSV_def removeUrlFromStorage_def saveChunkToStorage_def
          downloadUpdatedChunkFile_def Let_def)
    from elapse_no_timers [OF this, of ds] show ?thesis
      by (simp add: run_events_def adv add.assoc)
  qed
qed

text \<open>
  X3: when the timer is armed and no heartbeat arrives, the stall handler runs as soon as the
  silence reaches the timeout, and only once: the console gets one stall warning, the page
  is skipped with its one-row artifact, the URL leaves the queue and the snapshot follows.
\<close>

theorem silence_past_timeout_skips_once:
  assumes "quiet s" and "0 < heartbeatTimeoutMs s" and "heartbeatTimeoutMs s \<le> sum_list ds"
  shows "console (run_events (map Elapse ds) (startHeartbeatTimer u s))
      = console s @ [WarnNoHeartbeat u, WarnSkipping u]
    \<and> downloads (run_events (map Elapse ds) (startHeartbeatTimer u s))
      = downloads s @ [CsvFile (getFilenameForUrl u) (oneRowCSV u ''skipped'' ''no post or error''),
                       ChunkFile (filter (\<lambda>item. item \<noteq> u) (loadChunkFromStorage s))]
    \<and> loadChunkFromStorage (run_events (map Elapse ds) (startHeartbeatTimer u s))
      = filter (\<lambda>item. item \<noteq> u) (loadChunkFromStorage s)
    \<and> timers (run_events (map Elapse ds) (startHeartbeatTimer u s)) = []"
proof -
  define s1 where "s1 = startHeartbeatTimer u s"
  have s1: "s1 = s\<lparr>heartbeatTimer := Some (Suc (last_timer_id s)),
         timers := [(Suc (last_timer_id s), clock s + heartbeatTimeoutMs s, OnTimeout u)],
         last_timer_id := Suc (last_timer_id s)\<rparr>"
    unfolding s1_def using assms(1) by (rule start_quiet)
  have "run_events (map Elapse ds) s1
    = (run_callback (OnTimeout u) (s1\<lparr>timers := []\<rparr>))\<lparr>clock := clock s1 + sum_list ds\<rparr>"
  proof (rule silence_fires_stall_handler [where since = 0 and a = "clock s"])
    show "timers s1 = [(Suc (last_timer_id s), clock s + heartbeatTimeoutMs s1, OnTimeout u)]"
      by (simp add: s1)
    show "clock s + 0 = clock s1" by (simp add: s1)
    show "0 < heartbeatTimeoutMs s1" using assms(2) by (simp add: s1)
    show "heartbeatTimeoutMs s1 \<le> 0 + sum_list ds" using assms(3) by (simp add: s1)
  qed
  then show ?thesis
    unfolding s1_def [symmetric]
    by (simp add: s1 run_callback_def skipUrl_def console_log_def
        downloadOneRowCSV_def downloadCSV_def removeUrlFromStorage_def saveChunkToStorage_def
        downloadUpdatedChunkFile_def loadChunkFromStorage_def Let_def)
qed

theorem silence_past_timeout_skips_once_witness:
  "console (run_events (map Elapse [10000, 10000, 10000, 50000])
      (startHeartbeatTimer url_a (queue_state [url_a, url_b])))
     = [WarnNoHeartbeat url_a, WarnSkipping url_a]
   \<and> loadChunkFromStorage (run_events (map Elapse [10000, 10000, 10000, 50000])
      (startHeartbeatTimer url_a (queue_state [url_a, url_b]))) = [url_b]"
proof -
  have q: "quiet (queue_state [url_a, url_b])"
    by (simp add: quiet_def queue_state_def initial_state_def)
  have p: "0 < heartbeatTimeoutMs (queue_state [url_a, url_b])"
    by (simp add: queue_state_def initial_state_def)
  have l: "heartbeatTimeoutMs (queue_state [url_a, url_b]) \<le> sum_list [10000, 10000, 10000, 50000]"
    by (simp add: queue_state_def initial_state_def)
  from silence_past_timeout_skips_once [OF q p l, of url_a] show ?thesis
    by (simp add: queue_state_def initial_state_def loadChunkFromStorage_def url_a_def url_b_def)
qed

section \<open>Errors inside an iteration and the fatal error\<close>

text \<open>
  X4: an error thrown inside an iteration is caught there. When there is no active tab, or
  when the page's answer is an error or missing (the heartbeats having kept the timer
  quiet), the iteration ends, the one-row skipped artifact and the queue snapshot are
  downloaded, the URL has left the queue, and the loop goes on.
\<close>

theorem thrown_errors_are_caught_and_skipped:
  assumes "idle s"
    and "active_tab sc = None \<or> active_tab sc = Some 0
      \<or> (navigation_completes sc \<and> within_window (heartbeatTimeoutMs s) 0 (page_events sc)
          \<and> (\<exists>r err. reply sc = Some r \<and> scrapeTab r = Inl err))"
  shows "\<exists>s'. process_url sc u s = Continue s' \<and> idle s'
    \<and> downloads s'
      = downloads s @ [CsvFile (getFilenameForUrl u) (oneRowCSV u ''skipped'' ''no post or error''),
                       ChunkFile (filter (\<lambda>item. item \<noteq> u) (loadChunkFromStorage s))]
    \<and> loadChunkFromStorage s' = filter (\<lambda>item. item \<noteq> u) (loadChunkFromStorage s)"
proof -
  define s0 where "s0 = set_status (StatusNavigating u) s"
  have i0: "idle s0" and d0: "downloads s0 = downloads s"
    and l0: "chunk_urls s0 = chunk_urls s" and t0: "heartbeatTimeoutMs s0 = heartbeatTimeoutMs s"
    using assms(1) by (simp_all add: s0_def set_status_def idle_def)
  have skip: "idle (catch_skip err u x)
      \<and> downloads (catch_skip err u x)
        = downloads x @ [CsvFile (getFilenameForUrl u) (oneRowCSV u ''skipped'' ''no post or error''),
                         ChunkFile (filter (\<lambda>item. item \<noteq> u) (loadChunkFromStorage x))]
      \<and> loadChunkFromStorage (catch_skip err u x)
        = filter (\<lambda>item. item \<noteq> u) (loadChunkFromStorage x)"
    if "quiet x" for err x
  proof -
    define x2 where "x2 = set_status (StatusErrorSkipping u) (console_log (ErrorScraping u err) x)"
    have q2: "quiet x2" and d2: "downloads x2 = downloads x" and l2: "chunk_urls x2 = chunk_urls x"
      using that by (simp_all add: x2_def quiet_def set_status_def console_log_def)
    define x3 where "x3 = clearHeartbeatTimer x2"
    have i3: "idle x3" and d3: "downloads x3 = downloads x" and l3: "chunk_urls x3 = chunk_urls x"
      by (simp_all add: x3_def clear_quiet [OF q2] idle_def d2 l2)
    have "catch_skip err u x = skipUrl u x3"
      by (simp add: catch_skip_def Let_def x2_def x3_def)
    then show ?thesis
      using skipUrl_effect [of u x3] load_skipUrl [of u x3] i3
      by (simp add: idle_def d3 l3 loadChunkFromStorage_def)
  qed
  from assms(2) consider
      (nt) "active_tab sc = None \<or> active_tab sc = Some 0"
    | (rej) tab r err where "active_tab sc = Some tab" "tab \<noteq> 0" "navigation_completes sc"
        "within_window (heartbeatTimeoutMs s) 0 (page_events sc)" "reply sc = Some r"
        "scrapeTab r = Inl err"
    by (cases "active_tab sc") auto
  then show ?thesis
  proof cases
    case nt
    then have "process_url sc u s = Continue (catch_skip (Error ''No active tab found.'') u s0)"
      by (auto simp: process_url_def Let_def s0_def)
    with skip [OF idle_quiet [OF i0], of "Error ''No active tab found.''"] show ?thesis
      by (simp add: d0 l0 loadChunkFromStorage_def)
  next
    case rej
    define s2 where "s2 = sleep 2000 s0"
    have s2: "s2 = s0\<lparr>clock := clock s0 + 2000\<rparr>"
      unfolding s2_def using i0 by (rule sleep_idle)
    have q2: "quiet s2" using i0 by (simp add: s2 quiet_def idle_def)
    define s3 where "s3 = set_status (StatusScraping u) (startHeartbeatTimer u s2)"
    have a3: "armed 0 s3"
      using armed_start [OF q2, of u] by (simp add: s3_def armed_def set_status_def)
    have e2: "heartbeatTimeoutMs s2 = heartbeatTimeoutMs s" "downloads s2 = downloads s"
      "chunk_urls s2 = chunk_urls s"
      by (simp_all add: s2 t0 d0 l0)
    have st: "startHeartbeatTimer u s2
      = s2\<lparr>heartbeatTimer := Some (Suc (last_timer_id s2)),
           timers := [(Suc (last_timer_id s2), clock s2 + heartbeatTimeoutMs s2, OnTimeout u)],
           last_timer_id := Suc (last_timer_id s2)\<rparr>"
      using q2 by (rule start_quiet)
    have t3: "heartbeatTimeoutMs s3 = heartbeatTimeoutMs s"
      and d3: "downloads s3 = downloads s" and l3: "chunk_urls s3 = chunk_urls s"
      by (simp_all add: s3_def set_status_def st e2)
    define s4 where "s4 = run_events (page_events sc) s3"
    from within_window_silent [OF a3, of "page_events sc"] rej(4)
    have d4: "downloads s4 = downloads s" and l4: "chunk_urls s4 = chunk_urls s"
      by (simp_all add: s4_def t3 d3 l3)
    have "quiet s3"
      by (simp add: s3_def set_status_def st quiet_def)
    from run_events_quiet [OF this, of "page_events sc"] have q4: "quiet s4"
      by (simp add: s4_def)
    have "process_url sc u s = Continue (catch_skip err u s4)"
      using rej by (simp add: process_url_def Let_def s0_def s2_def s3_def s4_def)
    with skip [OF q4, of err] show ?thesis
      by (simp add: d4 l4 loadChunkFromStorage_def)
  qed
qed

theorem thrown_errors_are_caught_and_skipped_witness:
  "(case process_url (page [Elapse 2000, Message ''heartbeat'', Elapse 2000] (Some NoReply)) url_a
          (queue_state [url_a, url_b]) of
      Continue s \<Rightarrow>
        downloads s = [CsvFile ''a.csv'' (oneRowCSV url_a ''skipped'' ''no post or error''),
                       ChunkFile [url_b]]
        \<and> loadChunkFromStorage s = [url_b]
    | Blocked s \<Rightarrow> False)"
proof -
  let ?sc = "page [Elapse 2000, Message ''heartbeat'', Elapse 2000] (Some NoReply)"
  have i: "idle (queue_state [url_a, url_b])"
    by (simp add: idle_def queue_state_def initial_state_def)
  have h: "active_tab ?sc = None \<or> active_tab ?sc = Some 0
      \<or> (navigation_completes ?sc
          \<and> within_window (heartbeatTimeoutMs (queue_state [url_a, url_b])) 0 (page_events ?sc)
          \<and> (\<exists>r err. reply ?sc = Some r \<and> scrapeTab r = Inl err))"
    by (simp add: page_def queue_state_def initial_state_def scrapeTab_def)
  from thrown_errors_are_caught_and_skipped [OF i h, of url_a]
  obtain s' where p: "process_url ?sc url_a (queue_state [url_a, url_b]) = Continue s'"
    and d: "downloads s'
      = downloads (queue_state [url_a, url_b])
        @ [CsvFile (getFilenameForUrl url_a) (oneRowCSV url_a ''skipped'' ''no post or error''),
           ChunkFile (filter (\<lambda>item. item \<noteq> url_a) (loadChunkFromStorage (queue_state [url_a, url_b])))]"
    and l: "loadChunkFromStorage s'
      = filter (\<lambda>item. item \<noteq> url_a) (loadChunkFromStorage (queue_state [url_a, url_b]))"
    by blast
  have "downloads s' = [CsvFile ''a.csv'' (oneRowCSV url_a ''skipped'' ''no post or error''),
                        ChunkFile [url_b]]"
    unfolding d
    by (simp add: queue_state_def initial_state_def loadChunkFromStorage_def getFilenameForUrl_def
        url_a_def url_b_def)
  moreover have "loadChunkFromStorage s' = [url_b]"
    unfolding l
    by (simp add: queue_state_def initial_state_def loadChunkFromStorage_def url_a_def url_b_def)
  ultimately show ?thesis
    unfolding p by simp
qed

lemma main_loop_never_fatal: "main_loop world s \<noteq> FatalError s'"
proof (induction world s rule: main_loop.induct)
  case (1 world s)
  show ?case
  proof (cases "loadChunkFromStorage s")
    case Nil
    then show ?thesis by (subst main_loop.simps) simp
  next
    case (Cons url rest)
    show ?thesis
    proof (cases "process_url (world url) url s")
      case (Continue s1)
      with Cons "1.IH" [OF Cons Continue] show ?thesis
        by (subst main_loop.simps) simp
    next
      case (Blocked s1)
      with Cons show ?thesis by (subst main_loop.simps) simp
    qed
  qed
qed

text \<open>
  X5: a click ends in the fatal error exactly when the persisted queue is empty and
  fetching the source list fails; nothing that happens while a URL is processed is fatal.
\<close>

theorem fatal_error_only_from_seed:
  "(\<exists>s'. handleScrapeClick world fetched s = FatalError s')
   = (loadChunkFromStorage s = [] \<and> (\<exists>err. fetchChunkFile fetched = Inl err))"
  by (cases "fetchChunkFile fetched")
    (auto simp: handleScrapeClick_def Let_def main_loop_never_fatal)

section \<open>The seed on any JSON array\<close>

text \<open>
  X6: on any JSON array the seed is the list of its entries that are strings with a
  character other than white space, verbatim and in order, unless some entry is truthy and
  not a string (true, a number other than 0, an array, an object): then the filter callback
  throws a TypeError and nothing is seeded. The falsy entries null, false, 0 and the empty
  string are dropped.
\<close>

theorem fetchChunkFile_on_any_array:
  "fetchChunkFile (FetchResponse True (Some (JArray arr)))
   = (if list_ex (\<lambda>e. keep_entry e = Inl TypeError) arr then Inl TypeError
      else Inr (strings_of (filter non_blank_entry arr)))"
  by (simp add: fetchChunkFile_def filter_entries_any)

section \<open>Every CSV file downloaded is an artifact text\<close>

lemma wfd_same: "downloads s' = downloads s \<Longrightarrow> well_formed_downloads s \<Longrightarrow> well_formed_downloads s'"
  by (simp add: well_formed_downloads_def)

lemma wfd_downloadCSV:
  "artifact_text txt \<Longrightarrow> well_formed_downloads s \<Longrightarrow> well_formed_downloads (downloadCSV txt name s)"
  by (simp add: well_formed_downloads_def downloadCSV_def)

lemma wfd_downloadOneRowCSV:
  "well_formed_downloads s \<Longrightarrow> well_formed_downloads (downloadOneRowCSV u p c s)"
  unfolding downloadOneRowCSV_def by (rule wfd_downloadCSV) (auto simp: artifact_text_def)

lemma wfd_chunk: "well_formed_downloads s \<Longrightarrow> well_formed_downloads (downloadUpdatedChunkFile s)"
  by (simp add: well_formed_downloads_def downloadUpdatedChunkFile_def Let_def)

lemma wfd_skipUrl: "well_formed_downloads s \<Longrightarrow> well_formed_downloads (skipUrl u s)"
  by (simp add: well_formed_downloads_def skipUrl_def downloadUpdatedChunkFile_def
      removeUrlFromStorage_def saveChunkToStorage_def downloadOneRowCSV_def downloadCSV_def
      console_log_def Let_def artifact_text_def) blast

lemma wfd_run_callback: "well_formed_downloads s \<Longrightarrow> well_formed_downloads (run_callback cb s)"
proof (cases cb)
  case (OnTimeout u)
  assume "well_formed_downloads s"
  then have "well_formed_downloads (console_log (WarnNoHeartbeat u) s)"
    by (simp add: well_formed_downloads_def console_log_def)
  then show ?thesis
    unfolding OnTimeout run_callback_def by (simp add: wfd_skipUrl)
next
  case WarnExpired
  assume "well_formed_downloads s"
  then show ?thesis
    by (simp add: WarnExpired run_callback_def well_formed_downloads_def console_log_def)
qed

lemma wfd_fold:
  "well_formed_downloads s \<Longrightarrow>
   well_formed_downloads (fold (\<lambda>(h, d, cb). run_callback cb) due s)"
proof (induction due arbitrary: s)
  case Nil
  then show ?case by simp
next
  case (Cons t due)
  obtain h d cb where t: "t = (h, d, cb)" by (cases t)
  from Cons.IH [OF wfd_run_callback [OF Cons.prems, of cb]] show ?case
    by (simp add: t)
qed

lemma wfd_advance: "well_formed_downloads s \<Longrightarrow> well_formed_downloads (advance ms s)"
proof -
  assume w: "well_formed_downloads s"
  let ?s1 = "s\<lparr>timers := filter (\<lambda>(h, d, cb). \<not> d \<le> clock s + ms) (timers s)\<rparr>"
  have "well_formed_downloads ?s1"
    using w by (simp add: well_formed_downloads_def)
  from wfd_fold [OF this, of "filter (\<lambda>(h, d, cb). d \<le> clock s + ms) (timers s)"]
  show ?thesis
    by (simp add: advance_def Let_def well_formed_downloads_def)
qed

lemma wfd_reset: "well_formed_downloads s \<Longrightarrow> well_formed_downloads (resetHeartbeatTimer s)"
  by (cases "heartbeatTimer s")
    (simp_all add: well_formed_downloads_def resetHeartbeatTimer_def clearTimeout_def
      setTimeout_def Let_def)

lemma wfd_clear: "well_formed_downloads s \<Longrightarrow> well_formed_downloads (clearHeartbeatTimer s)"
  by (cases "heartbeatTimer s")
    (simp_all add: well_formed_downloads_def clearHeartbeatTimer_def clearTimeout_def)

lemma wfd_start: "well_formed_downloads s \<Longrightarrow> well_formed_downloads (startHeartbeatTimer u s)"
  by (cases "heartbeatTimer s")
    (simp_all add: well_formed_downloads_def startHeartbeatTimer_def clearHeartbeatTimer_def
      clearTimeout_def setTimeout_def Let_def)

lemma wfd_run_events: "well_formed_downloads s \<Longrightarrow> well_formed_downloads (run_events evs s)"
  unfolding run_events_def
proof (induction evs arbitrary: s)
  case Nil
  then show ?case by simp
next
  case (Cons ev evs)
  have "well_formed_downloads (deliver ev s)"
    using Cons.prems by (cases ev) (simp_all add: wfd_advance wfd_reset onMessage_def)
  from Cons.IH [OF this] show ?case by simp
qed

lemma wfd_wait_attempts:
  "well_formed_downloads s \<Longrightarrow> well_formed_downloads (snd (wait_attempts found n s))"
proof (induction found n s rule: wait_attempts.induct)
  case (1 found attempts s)
  show ?case
  proof (cases "attempts < 10")
    case False
    with "1.prems" show ?thesis by (subst wait_attempts.simps) simp
  next
    case True
    have w: "well_formed_downloads (sleep 3000 s)"
      using "1.prems" by (simp add: sleep_def wfd_advance)
    show ?thesis
    proof (cases "found attempts")
      case True
      with \<open>attempts < 10\<close> w show ?thesis by (subst wait_attempts.simps) simp
    next
      case False
      from "1.IH" [OF \<open>attempts < 10\<close> refl False w] False \<open>attempts < 10\<close> show ?thesis
        by (subst wait_attempts.simps) simp
    qed
  qed
qed

lemma wfd_status: "well_formed_downloads s \<Longrightarrow> well_formed_downloads (set_status t s)"
  by (simp add: well_formed_downloads_def set_status_def)

lemma wfd_log: "well_formed_downloads s \<Longrightarrow> well_formed_downloads (console_log e s)"
  by (simp add: well_formed_downloads_def console_log_def)

lemma wfd_remove: "well_formed_downloads s \<Longrightarrow> well_formed_downloads (removeUrlFromStorage u s)"
  by (simp add: well_formed_downloads_def removeUrlFromStorage_def saveChunkToStorage_def)

lemma wfd_sleep: "well_formed_downloads s \<Longrightarrow> well_formed_downloads (sleep ms s)"
  by (simp add: sleep_def wfd_advance)

lemma wfd_generate:
  "well_formed_downloads s \<Longrightarrow> well_formed_downloads (downloadCSV (generateCSV d) name s)"
  by (rule wfd_downloadCSV) (auto simp: artifact_text_def)

lemma wfd_catch_skip: "well_formed_downloads s \<Longrightarrow> well_formed_downloads (catch_skip err u s)"
  by (simp add: catch_skip_def Let_def wfd_skipUrl wfd_clear wfd_status wfd_log)

lemma wfd_handle_scraped:
  assumes "well_formed_downloads s"
  shows "well_formed_downloads (handle_scraped sc u d s)"
proof (cases "classify d")
  case NoPosts
  with assms show ?thesis
    by (simp add: handle_scraped_def Let_def wfd_chunk wfd_remove wfd_downloadOneRowCSV
        wfd_status wfd_clear)
next
  case NoPostRecord
  with assms show ?thesis
    by (simp add: handle_scraped_def Let_def wfd_chunk wfd_remove wfd_generate wfd_status
        wfd_clear)
next
  case Posts
  let ?s4 = "set_status (StatusChecking u)
               (sleep 3000 (downloadCSV (generateCSV d) (getFilenameForUrl u) (clearHeartbeatTimer s)))"
  let ?w = "waitForFileDownload (file_found sc) ?s4"
  have "well_formed_downloads ?s4"
    using assms by (simp add: wfd_status wfd_sleep wfd_generate wfd_clear)
  then have "well_formed_downloads (snd ?w)"
    unfolding waitForFileDownload_def by (rule wfd_wait_attempts)
  then have "well_formed_downloads
      (if \<not> fst ?w then console_log (WarnCsvTimeout u) (snd ?w) else snd ?w)"
    by (simp add: wfd_log)
  then have "well_formed_downloads (sleep 2000 (set_status (StatusDone u)
      (downloadUpdatedChunkFile (removeUrlFromStorage u
         (if \<not> fst ?w then console_log (WarnCsvTimeout u) (snd ?w) else snd ?w)))))"
    by (intro wfd_sleep wfd_status wfd_chunk wfd_remove)
  with Posts show ?thesis
    by (simp add: handle_scraped_def Let_def split_beta)
qed

lemma wfd_process_url:
  assumes "well_formed_downloads s"
  shows "well_formed_downloads
    (case process_url sc u s of Continue s' \<Rightarrow> s' | Blocked s' \<Rightarrow> s')"
proof -
  let ?s0 = "set_status (StatusNavigating u) s"
  let ?s4 = "run_events (page_events sc)
               (set_status (StatusScraping u) (startHeartbeatTimer u (sleep 2000 ?s0)))"
  have w0: "well_formed_downloads ?s0"
    using assms by (rule wfd_status)
  have w4: "well_formed_downloads ?s4"
    by (intro wfd_run_events wfd_status wfd_start wfd_sleep w0)
  show ?thesis
    using w0 w4
    by (simp add: process_url_def Let_def wfd_catch_skip wfd_handle_scraped
        split: option.splits sum.splits)
qed

lemma wfd_main_loop:
  "well_formed_downloads s \<Longrightarrow> well_formed_downloads (final_state (main_loop world s))"
proof (induction world s rule: main_loop.induct)
  case (1 world s)
  show ?case
  proof (cases "loadChunkFromStorage s")
    case Nil
    with "1.prems" show ?thesis
      by (subst main_loop.simps) (simp add: wfd_status)
  next
    case (Cons url rest)
    show ?thesis
    proof (cases "process_url (world url) url s")
      case (Continue s1)
      have "well_formed_downloads s1"
        using wfd_process_url [OF "1.prems", of "world url" url] by (simp add: Continue)
      from "1.IH" [OF Cons Continue this] Cons Continue show ?thesis
        by (subst main_loop.simps) simp
    next
      case (Blocked s1)
      have "well_formed_downloads s1"
        using wfd_process_url [OF "1.prems", of "world url" url] by (simp add: Blocked)
      with Cons Blocked show ?thesis
        by (subst main_loop.simps) simp
    qed
  qed
qed

text \<open>
  X7: whatever the pages do and however the click ends, every CSV file that the popup has
  downloaded holds a text built by \<^verbatim>\<open>generateCSV\<close> or by \<^verbatim>\<open>downloadOneRowCSV\<close>, and so
  begins with the header line.
\<close>

theorem every_download_is_an_artifact_text:
  assumes "well_formed_downloads s"
  shows "well_formed_downloads (final_state (handleScrapeClick world fetched s))
    \<and> list_all (\<lambda>d. case d of
          CsvFile name txt \<Rightarrow> take 48 txt = ''PageURL,PageName,Content,PostDate,Likes,Comments''
        | ChunkFile q \<Rightarrow> True)
        (downloads (final_state (handleScrapeClick world fetched s)))"
proof -
  have w: "well_formed_downloads (final_state (handleScrapeClick world fetched s))"
    using assms
    by (simp add: handleScrapeClick_def Let_def wfd_main_loop wfd_status wfd_log
        well_formed_downloads_def saveChunkToStorage_def set_status_def console_log_def
        split: sum.splits)
      (auto intro!: wfd_main_loop [unfolded well_formed_downloads_def]
        simp: well_formed_downloads_def)
  have h: "take 48 csv = ''PageURL,PageName,Content,PostDate,Likes,Comments''"
    if "artifact_text csv" for csv
    using that
    by (auto simp: artifact_text_def generateCSV_def oneRowCSV_def join_lines join_headers)
  have "well_formed_download d \<Longrightarrow>
      (case d of CsvFile name txt \<Rightarrow> take 48 txt = ''PageURL,PageName,Content,PostDate,Likes,Comments''
       | ChunkFile q \<Rightarrow> True)" for d
    by (cases d) (simp_all add: h)
  with w show ?thesis
    by (auto simp: well_formed_downloads_def list_all_iff)
qed

theorem every_download_is_an_artifact_text_witness:
  "list_all (\<lambda>d. case d of
        CsvFile name txt \<Rightarrow> take 48 txt = ''PageURL,PageName,Content,PostDate,Likes,Comments''
      | ChunkFile q \<Rightarrow> True)
     (downloads (final_state (handleScrapeClick
        (\<lambda>url. if url = url_a then page [Elapse 30000] (Some (Reply (Some [post1, post2])))
                else page [] (Some NoReply))
        (FetchResponse True (Some (JArray [JStr url_a, JStr url_b]))) initial_state)))
   \<and> length (downloads (final_state (handleScrapeClick
        (\<lambda>url. if url = url_a then page [Elapse 30000] (Some (Reply (Some [post1, post2])))
                else page [] (Some NoReply))
        (FetchResponse True (Some (JArray [JStr url_a, JStr url_b]))) initial_state))) = 6"
proof -
  have w: "well_formed_downloads initial_state"
    by (simp add: well_formed_downloads_def initial_state_def)
  have "length (downloads (final_state (handleScrapeClick
        (\<lambda>url. if url = url_a then page [Elapse 30000] (Some (Reply (Some [post1, post2])))
                else page [] (Some NoReply))
        (FetchResponse True (Some (JArray [JStr url_a, JStr url_b]))) initial_state))) = 6"
    by (simp add: handleScrapeClick_def fetchChunkFile_def trim_def is_js_space_def
        main_loop.simps eval_defs cong: let_weak_cong)
  with every_download_is_an_artifact_text [OF w] show ?thesis
    by simp
qed

end
